theory Spec2Isabelle
  imports Main "HOL-Library.Word"
begin

section \<open>Snapshot serialization of the L4 hash table (Serializer.h)\<close>

text \<open>
  The development embeds \<^verbatim>\<open>inc/L4/HashTable/ReadWrite/Serializer.h\<close>: the current
  serializer and deserializer (namespace \<^verbatim>\<open>Current\<close>) and the two drivers that
  callers use. Exceptions are values of type \<open>error\<close>; the stream and the table are
  passed in and returned, also when the call throws, since both are taken by reference
  in the source and keep what was done to them before the throw.
\<close>

subsection \<open>Bytes, errors and the parts of the build that the header does not fix\<close>

type_synonym byte = "8 word"

text \<open>
  The header throws \<^verbatim>\<open>RuntimeException\<close> in two places: the driver's
  \<^verbatim>\<open>"Unsupported version '%1%' is given."\<close>, which carries the tag, and the
  \<^verbatim>\<open>"RegisterAction() should not be called from the serializer."\<close> of the
  deserializer's own \<^verbatim>\<open>EpochActionManager\<close>. The specification names them
  \<open>UnsupportedVersion(tag)\<close> and \<open>ReplayInvariantViolation\<close>; a failing read or write of
  the stream is its \<open>StreamFault\<close>.
\<close>

datatype error = StreamFault | UnsupportedVersion byte | ReplayInvariantViolation

text \<open>
  The header takes three sizes from declarations that are not part of it:
  \<^verbatim>\<open>sizeof(hashTable.m_setting)\<close>, and the widths of \<^verbatim>\<open>key.m_size\<close> and
  \<^verbatim>\<open>value.m_size\<close> (the \<^verbatim>\<open>Key\<close> and \<^verbatim>\<open>Value\<close> blobs of
  \<^verbatim>\<open>IReadOnlyHashTable\<close>). It also reads one byte of the stream into a
  \<^verbatim>\<open>bool\<close>; which bytes make that \<^verbatim>\<open>bool\<close> true is not fixed by the header
  either. All four are parameters of the model, counted in bytes.
\<close>

record layout =
  sizeof_Setting :: nat
  sizeof_KeySize :: nat
  sizeof_ValueSize :: nat
  bool_of_byte :: "byte \<Rightarrow> bool"

text \<open>
  Modelled from the spec: \<^verbatim>\<open>SerializerHelper\<close> and
  \<^verbatim>\<open>DeserializerHelper\<close> (\<^verbatim>\<open>Serialization/SerializerHelper.h\<close>) are not
  part of the sources. The specification has every integer written in a fixed width, in
  a byte order that the implementation chooses once, and read back the same way, with no
  check of the content. The model uses the little-endian order; a value wider than the
  field is cut to the field, which is the wrap-around of an unsigned integer of that
  width.
\<close>

fun le_encode :: "nat \<Rightarrow> nat \<Rightarrow> byte list" where
  "le_encode 0 x = []"
| "le_encode (Suc n) x = word_of_nat (x mod 256) # le_encode n (x div 256)"

fun le_decode :: "byte list \<Rightarrow> nat" where
  "le_decode [] = 0"
| "le_decode (b # bs) = unat b + 256 * le_decode bs"

text \<open>
  A one-byte object that a read overwrites: \<^verbatim>\<open>version = 0U\<close> and
  \<^verbatim>\<open>hasMoreData = false\<close> keep their initial byte when nothing arrives.
\<close>

definition overwrite :: "byte \<Rightarrow> byte list \<Rightarrow> byte" where
  "overwrite init bs = (case bs of [] \<Rightarrow> init | b # _ \<Rightarrow> b)"

subsection \<open>The byte stream boundary\<close>

text \<open>
  Modelled from the spec: \<^verbatim>\<open>IStreamWriter\<close> and \<^verbatim>\<open>IStreamReader\<close>
  (\<^verbatim>\<open>Serialization/IStream.h\<close>) are not part of the sources. The specification gives them
  \<open>Begin\<close>, \<open>End\<close> and exact-count \<open>Read\<close>/\<open>Write\<close> that fault on a short transfer.
  A writer holds the bytes it has accepted and the room that is left; a reader holds the
  bytes that are not consumed yet. Both keep the list of calls made on them, a failing
  call included, so that the bracketing of a run can be read off.
\<close>

datatype stream_call = CallBegin | CallWrite nat | CallRead nat | CallEnd

record writer =
  w_bytes :: "byte list"
  w_room :: nat
  w_calls :: "stream_call list"

record reader =
  r_bytes :: "byte list"
  r_calls :: "stream_call list"

definition writer_Begin :: "writer \<Rightarrow> writer" where
  "writer_Begin w = w\<lparr>w_calls := w_calls w @ [CallBegin]\<rparr>"

definition writer_End :: "writer \<Rightarrow> writer" where
  "writer_End w = w\<lparr>w_calls := w_calls w @ [CallEnd]\<rparr>"

definition Write :: "byte list \<Rightarrow> writer \<Rightarrow> error option \<times> writer" where
  "Write bs w =
     (if length bs \<le> w_room w
      then (None, w\<lparr>w_bytes := w_bytes w @ bs, w_room := w_room w - length bs,
                     w_calls := w_calls w @ [CallWrite (length bs)]\<rparr>)
      else (Some StreamFault, w\<lparr>w_calls := w_calls w @ [CallWrite (length bs)]\<rparr>))"

definition reader_Begin :: "reader \<Rightarrow> reader" where
  "reader_Begin r = r\<lparr>r_calls := r_calls r @ [CallBegin]\<rparr>"

definition reader_End :: "reader \<Rightarrow> reader" where
  "reader_End r = r\<lparr>r_calls := r_calls r @ [CallEnd]\<rparr>"

definition Read :: "nat \<Rightarrow> reader \<Rightarrow> (error + byte list) \<times> reader" where
  "Read n r =
     (if n \<le> length (r_bytes r)
      then (Inr (take n (r_bytes r)),
            r\<lparr>r_bytes := drop n (r_bytes r), r_calls := r_calls r @ [CallRead n]\<rparr>)
      else (Inl StreamFault, r\<lparr>r_calls := r_calls r @ [CallRead n]\<rparr>))"

subsection \<open>The hash table as the serializer sees it\<close>

text \<open>
  Modelled from the spec: the table type, its perf counters, the read-only iterator and
  \<^verbatim>\<open>WritableHashTable::Add\<close> are not part of the sources. A table is its settings blob, its
  counters and its records in the order in which the iterator yields them
  (\<^verbatim>\<open>MoveNext\<close>, \<^verbatim>\<open>GetKey\<close>, \<^verbatim>\<open>GetValue\<close>); the table that is
  serialized may list them in any order. Keys are unique in a table.
\<close>

datatype HashTablePerfCounter =
  RecordsCountSavedFromSerializer | RecordsCountLoadedFromSerializer

record perfData =
  saved :: nat
  loaded :: nat

fun Set_counter :: "HashTablePerfCounter \<Rightarrow> nat \<Rightarrow> perfData \<Rightarrow> perfData" where
  "Set_counter RecordsCountSavedFromSerializer v p = p\<lparr>saved := v\<rparr>"
| "Set_counter RecordsCountLoadedFromSerializer v p = p\<lparr>loaded := v\<rparr>"

fun Increment :: "HashTablePerfCounter \<Rightarrow> perfData \<Rightarrow> perfData" where
  "Increment RecordsCountSavedFromSerializer p = p\<lparr>saved := Suc (saved p)\<rparr>"
| "Increment RecordsCountLoadedFromSerializer p = p\<lparr>loaded := Suc (loaded p)\<rparr>"

record hashTable =
  m_setting :: "byte list"
  m_perfData :: perfData
  m_records :: "(byte list \<times> byte list) list"

text \<open>
  Modelled from the spec: \<^verbatim>\<open>memory.MakeUnique<HashTable>(setting, allocator)\<close>
  runs the constructor of the table, which is not part of the sources. The
  specification has it allocate a new, empty table configured with the decoded settings;
  its counters start at zero.
\<close>

definition MakeUnique :: "byte list \<Rightarrow> hashTable" where
  "MakeUnique setting =
     \<lparr>m_setting = setting, m_perfData = \<lparr>saved = 0, loaded = 0\<rparr>, m_records = []\<rparr>"

text \<open>
  \<^verbatim>\<open>EpochActionManager::RegisterAction\<close> of the deserializer (lines 194 to 204 of
  the header): it throws whenever it is called.
\<close>

definition RegisterAction :: "error + hashTable" where
  "RegisterAction = Inl ReplayInvariantViolation"

text \<open>
  Modelled from the spec: \<^verbatim>\<open>WritableHashTable::Add\<close>. Adding a key that the table
  already holds asks the epoch manager to reclaim the record it replaces, which is the
  call above; a new key is stored. The model stores it after the records already there.
\<close>

definition Add :: "byte list \<Rightarrow> byte list \<Rightarrow> hashTable \<Rightarrow> error + hashTable" where
  "Add key val ht =
     (if key \<in> set (map fst (m_records ht)) then RegisterAction
      else Inr (ht\<lparr>m_records := m_records ht @ [(key, val)]\<rparr>))"

subsection \<open>Current::Serializer::Serialize\<close>

definition c_version :: byte where
  "c_version = 3"

text \<open>
  The body of the \<^verbatim>\<open>while (iterator->MoveNext())\<close> loop, once for each record
  that the iterator yields: the flag \<^verbatim>\<open>true\<close>, the key's size and bytes, the
  value's size and bytes, then the increment of the counter. \<^verbatim>\<open>key.m_size\<close> is
  the length of the key as an unsigned integer of \<open>sizeof_KeySize\<close> bytes, and
  \<^verbatim>\<open>helper.Serialize(key.m_data, key.m_size)\<close> writes that many bytes.
\<close>

definition blob_size :: "nat \<Rightarrow> byte list \<Rightarrow> nat" where
  "blob_size width b = length b mod 256 ^ width"

fun Serialize_records ::
  "layout \<Rightarrow> (byte list \<times> byte list) list \<Rightarrow> perfData \<Rightarrow> writer
     \<Rightarrow> error option \<times> perfData \<times> writer" where
  "Serialize_records L [] perf w = (None, perf, w)"
| "Serialize_records L ((key, val) # rest) perf w =
     (case Write [1] w of
        (Some e, w1) \<Rightarrow> (Some e, perf, w1)
      | (None, w1) \<Rightarrow>
     (case Write (le_encode (sizeof_KeySize L) (blob_size (sizeof_KeySize L) key)) w1 of
        (Some e, w2) \<Rightarrow> (Some e, perf, w2)
      | (None, w2) \<Rightarrow>
     (case Write (take (blob_size (sizeof_KeySize L) key) key) w2 of
        (Some e, w3) \<Rightarrow> (Some e, perf, w3)
      | (None, w3) \<Rightarrow>
     (case Write (le_encode (sizeof_ValueSize L) (blob_size (sizeof_ValueSize L) val)) w3 of
        (Some e, w4) \<Rightarrow> (Some e, perf, w4)
      | (None, w4) \<Rightarrow>
     (case Write (take (blob_size (sizeof_ValueSize L) val) val) w4 of
        (Some e, w5) \<Rightarrow> (Some e, perf, w5)
      | (None, w5) \<Rightarrow>
        Serialize_records L rest (Increment RecordsCountSavedFromSerializer perf) w5)))))"

text \<open>
  The whole of \<^verbatim>\<open>Current::Serializer::Serialize\<close>. The table comes back with its
  counters as the call left them; \<^verbatim>\<open>writer.End()\<close> is reached only when no write
  has thrown. The release fence has no effect in a sequential run.
\<close>

definition Current_Serialize ::
  "layout \<Rightarrow> hashTable \<Rightarrow> writer \<Rightarrow> error option \<times> hashTable \<times> writer" where
  "Current_Serialize L hashTable w =
     (let w0 = writer_Begin w;
          perf0 = Set_counter RecordsCountSavedFromSerializer 0 (m_perfData hashTable);
          ht0 = hashTable\<lparr>m_perfData := perf0\<rparr>
      in case Write [c_version] w0 of
           (Some e, w1) \<Rightarrow> (Some e, ht0, w1)
         | (None, w1) \<Rightarrow>
        (case Write (take (sizeof_Setting L) (m_setting hashTable)) w1 of
           (Some e, w2) \<Rightarrow> (Some e, ht0, w2)
         | (None, w2) \<Rightarrow>
        (case Serialize_records L (m_records hashTable) perf0 w2 of
           (Some e, perf, w3) \<Rightarrow> (Some e, hashTable\<lparr>m_perfData := perf\<rparr>, w3)
         | (None, perf, w3) \<Rightarrow>
        (case Write [0] w3 of
           (Some e, w4) \<Rightarrow> (Some e, hashTable\<lparr>m_perfData := perf\<rparr>, w4)
         | (None, w4) \<Rightarrow> (None, hashTable\<lparr>m_perfData := perf\<rparr>, writer_End w4)))))"

subsection \<open>Current::Deserializer::Deserialize\<close>

text \<open>
  \<^verbatim>\<open>helper.Deserialize(hasMoreData)\<close>: one byte read into a \<^verbatim>\<open>bool\<close> that
  was \<^verbatim>\<open>false\<close> before.
\<close>

definition Deserialize_bool :: "layout \<Rightarrow> reader \<Rightarrow> (error + bool) \<times> reader" where
  "Deserialize_bool L r =
     (case Read 1 r of
        (Inl e, r1) \<Rightarrow> (Inl e, r1)
      | (Inr bs, r1) \<Rightarrow> (Inr (bool_of_byte L (overwrite 0 bs)), r1))"

text \<open>
  \<^verbatim>\<open>helper.Deserialize(key.m_size)\<close>, \<^verbatim>\<open>keyBuffer.resize(key.m_size)\<close> and
  \<^verbatim>\<open>helper.Deserialize(keyBuffer.data(), key.m_size)\<close>: a size of the given
  width, then as many bytes as the size says. The \<^verbatim>\<open>resize\<close> of the buffer is
  taken to succeed.
\<close>

definition Deserialize_blob :: "nat \<Rightarrow> reader \<Rightarrow> (error + byte list) \<times> reader" where
  "Deserialize_blob width r =
     (case Read width r of
        (Inl e, r1) \<Rightarrow> (Inl e, r1)
      | (Inr size_bytes, r1) \<Rightarrow> Read (le_decode size_bytes) r1)"

lemma Read_length:
  "Read n r = (res, r') \<Longrightarrow> length (r_bytes r') \<le> length (r_bytes r)"
  by (auto simp: Read_def split: if_splits)

lemma Deserialize_blob_length:
  "Deserialize_blob width r = (res, r') \<Longrightarrow> length (r_bytes r') \<le> length (r_bytes r)"
  unfolding Deserialize_blob_def
  by (auto split: prod.splits sum.splits dest!: Read_length)

lemma Deserialize_bool_length:
  "Deserialize_bool L r = (Inr b, r') \<Longrightarrow> length (r_bytes r') < length (r_bytes r)"
  unfolding Deserialize_bool_def
  by (auto simp: Read_def split: if_splits)

text \<open>
  The \<^verbatim>\<open>while (hasMoreData)\<close> loop, entered with the flag that was read last. An
  iteration reads the key and the value, adds them through the writable table, reads the
  next flag and then increments the counter. The result holds the table as built so
  far; when the loop throws, the caller never sees that table (the
  \<^verbatim>\<open>UniquePtr\<close> dies with the frame).
\<close>

function replay ::
  "layout \<Rightarrow> bool \<Rightarrow> hashTable \<Rightarrow> reader \<Rightarrow> error option \<times> hashTable \<times> reader" where
  "replay L hasMoreData ht r =
     (if \<not> hasMoreData then (None, ht, r)
      else
     (case Deserialize_blob (sizeof_KeySize L) r of
        (Inl e, r1) \<Rightarrow> (Some e, ht, r1)
      | (Inr key, r1) \<Rightarrow>
     (case Deserialize_blob (sizeof_ValueSize L) r1 of
        (Inl e, r2) \<Rightarrow> (Some e, ht, r2)
      | (Inr val, r2) \<Rightarrow>
     (case Add key val ht of
        Inl e \<Rightarrow> (Some e, ht, r2)
      | Inr ht1 \<Rightarrow>
     (case Deserialize_bool L r2 of
        (Inl e, r3) \<Rightarrow> (Some e, ht1, r3)
      | (Inr next_flag, r3) \<Rightarrow>
        replay L next_flag
          (ht1\<lparr>m_perfData :=
                 Increment RecordsCountLoadedFromSerializer (m_perfData ht1)\<rparr>) r3)))))"
  by pat_completeness auto

termination
proof (relation "measure (\<lambda>(L, hasMoreData, ht, r). length (r_bytes r))", goal_cases)
  case 1
  show ?case by simp
next
  case (2 L hasMoreData ht r x1 r1 key x2 r2 val ht1 x3 r3 next_flag)
  have "length (r_bytes r1) \<le> length (r_bytes r)"
    using 2(2) [symmetric] by (rule Deserialize_blob_length)
  moreover have "length (r_bytes r2) \<le> length (r_bytes r1)"
    using 2(4) [symmetric] by (rule Deserialize_blob_length)
  moreover have "Deserialize_bool L r2 = (Inr next_flag, r3)"
    using 2(7) 2(8) by simp
  then have "length (r_bytes r3) < length (r_bytes r2)"
    by (rule Deserialize_bool_length)
  ultimately show ?case by simp
qed

declare replay.simps [simp del]

text \<open>
  The whole of \<^verbatim>\<open>Current::Deserializer::Deserialize\<close>: the settings, a fresh
  table, the first flag, the loop, and \<^verbatim>\<open>reader.End()\<close> when nothing has thrown.
\<close>

definition Current_Deserialize ::
  "layout \<Rightarrow> reader \<Rightarrow> (error + hashTable) \<times> reader" where
  "Current_Deserialize L r =
     (case Read (sizeof_Setting L) r of
        (Inl e, r1) \<Rightarrow> (Inl e, r1)
      | (Inr setting, r1) \<Rightarrow>
     (case Deserialize_bool L r1 of
        (Inl e, r2) \<Rightarrow> (Inl e, r2)
      | (Inr hasMoreData, r2) \<Rightarrow>
     (case replay L hasMoreData (MakeUnique setting) r2 of
        (Some e, ht, r3) \<Rightarrow> (Inl e, r3)
      | (None, ht, r3) \<Rightarrow> (Inr ht, reader_End r3))))"

subsection \<open>The drivers\<close>

text \<open>\<^verbatim>\<open>Serializer::Serialize\<close> always uses the current serializer.\<close>

definition Serialize ::
  "layout \<Rightarrow> hashTable \<Rightarrow> writer \<Rightarrow> error option \<times> hashTable \<times> writer" where
  "Serialize L hashTable w = Current_Serialize L hashTable w"

text \<open>
  \<^verbatim>\<open>Deserializer::Deserialize\<close>: \<^verbatim>\<open>reader.Begin()\<close>, one byte for the
  version, and the \<^verbatim>\<open>switch\<close> whose only case is \<^verbatim>\<open>Current::c_version\<close>.
\<close>

definition Deserialize :: "layout \<Rightarrow> reader \<Rightarrow> (error + hashTable) \<times> reader" where
  "Deserialize L r =
     (case Read 1 (reader_Begin r) of
        (Inl e, r1) \<Rightarrow> (Inl e, r1)
      | (Inr bs, r1) \<Rightarrow>
          (let version = overwrite 0 bs
           in if version = c_version then Current_Deserialize L r1
              else (Inl (UnsupportedVersion version), r1)))"

subsection \<open>The byte layout of the specification\<close>

text \<open>
  The layout of section 6 of the specification, written down from its words and not
  from the code: the version tag, the settings blob, then for each record a presence
  flag 1, the key length, the key bytes, the value length and the value bytes, and a
  final presence flag 0. The widths of the two lengths are those of the layout. A
  record fits when both lengths can be written in their fields; a table is valid when
  its settings blob has its size, its keys are unique and its records fit.
\<close>

definition fits :: "layout \<Rightarrow> byte list \<times> byte list \<Rightarrow> bool" where
  "fits L kv = (length (fst kv) < 256 ^ sizeof_KeySize L \<and> length (snd kv) < 256 ^ sizeof_ValueSize L)"

definition valid_table :: "layout \<Rightarrow> hashTable \<Rightarrow> bool" where
  "valid_table L ht =
     (length (m_setting ht) = sizeof_Setting L \<and> distinct (map fst (m_records ht)) \<and>
      list_all (fits L) (m_records ht))"

definition flags_ok :: "layout \<Rightarrow> bool" where
  "flags_ok L = (bool_of_byte L 1 \<and> \<not> bool_of_byte L 0)"

definition wire_record :: "layout \<Rightarrow> byte list \<times> byte list \<Rightarrow> byte list" where
  "wire_record L kv =
     le_encode (sizeof_KeySize L) (length (fst kv)) @ fst kv @
     le_encode (sizeof_ValueSize L) (length (snd kv)) @ snd kv"

definition wire_records :: "layout \<Rightarrow> (byte list \<times> byte list) list \<Rightarrow> byte list" where
  "wire_records L recs = concat (map (\<lambda>kv. 1 # wire_record L kv) recs)"

definition wire_table :: "layout \<Rightarrow> hashTable \<Rightarrow> byte list" where
  "wire_table L ht = c_version # m_setting ht @ wire_records L (m_records ht) @ [0]"

definition record_writes :: "layout \<Rightarrow> byte list \<times> byte list \<Rightarrow> stream_call list" where
  "record_writes L kv =
     [CallWrite 1, CallWrite (sizeof_KeySize L), CallWrite (length (fst kv)),
      CallWrite (sizeof_ValueSize L), CallWrite (length (snd kv))]"

definition record_reads :: "layout \<Rightarrow> byte list \<times> byte list \<Rightarrow> stream_call list" where
  "record_reads L kv =
     [CallRead (sizeof_KeySize L), CallRead (length (fst kv)),
      CallRead (sizeof_ValueSize L), CallRead (length (snd kv))]"

text \<open>
  Modelled from the spec: the declarations of \<^verbatim>\<open>IReadOnlyHashTable::Key\<close> and
  \<^verbatim>\<open>Value\<close>, which fix the types of \<^verbatim>\<open>key.m_size\<close> and
  \<^verbatim>\<open>value.m_size\<close>, are not part of the sources. Section 6 of the specification gives
  both lengths as \<open>u32\<close>, four bytes each.
\<close>

definition spec_widths :: "layout \<Rightarrow> bool" where
  "spec_widths L = (sizeof_KeySize L = 4 \<and> sizeof_ValueSize L = 4)"

text \<open>
  The calls that one record makes on the stream: five writes when it is serialized,
  and four reads followed by the read of the next flag when it is replayed.
\<close>

definition replay_reads :: "layout \<Rightarrow> (byte list \<times> byte list) list \<Rightarrow> stream_call list" where
  "replay_reads L recs = concat (map (\<lambda>kv. record_reads L kv @ [CallRead 1]) recs)"

definition table_writes :: "layout \<Rightarrow> (byte list \<times> byte list) list \<Rightarrow> stream_call list" where
  "table_writes L recs = concat (map (record_writes L) recs)"

text \<open>A run that only writes, or only reads: no \<open>Begin\<close> and no \<open>End\<close> among its calls.\<close>

definition only_writes :: "writer \<Rightarrow> writer \<Rightarrow> bool" where
  "only_writes w w' = (\<exists>ns. w_calls w' = w_calls w @ map CallWrite ns)"

definition only_reads :: "reader \<Rightarrow> reader \<Rightarrow> bool" where
  "only_reads r r' = (\<exists>ns. r_calls r' = r_calls r @ map CallRead ns)"

subsection \<open>Encoding, stream and table lemmas\<close>

lemma length_le_encode [simp]: "length (le_encode n x) = n"
  by (induction n arbitrary: x) simp_all

lemma le_decode_le_encode: "x < 256 ^ n \<Longrightarrow> le_decode (le_encode n x) = x"
proof (induction n arbitrary: x)
  case 0
  then show ?case by simp
next
  case (Suc n)
  have "x div 256 < 256 ^ n"
    using Suc.prems by (simp add: less_mult_imp_div_less mult.commute)
  then have "le_decode (le_encode n (x div 256)) = x div 256"
    by (rule Suc.IH)
  moreover have "unat (word_of_nat (x mod 256) :: byte) = x mod 256"
    by (simp add: unat_of_nat)
  ultimately show ?case by simp
qed

lemma blob_size_fits: "length b < 256 ^ width \<Longrightarrow> blob_size width b = length b"
  by (simp add: blob_size_def)

lemma Read_prefix:
  "r_bytes r = xs @ ys \<Longrightarrow>
   Read (length xs) r = (Inr xs, r\<lparr>r_bytes := ys, r_calls := r_calls r @ [CallRead (length xs)]\<rparr>)"
  by (simp add: Read_def)

lemma Deserialize_blob_wire:
  assumes "length b < 256 ^ width" and "r_bytes r = le_encode width (length b) @ b @ ys"
  shows "Deserialize_blob width r =
           (Inr b, r\<lparr>r_bytes := ys,
                     r_calls := r_calls r @ [CallRead width, CallRead (length b)]\<rparr>)"
proof -
  have "Read width r =
          (Inr (le_encode width (length b)),
           r\<lparr>r_bytes := b @ ys, r_calls := r_calls r @ [CallRead width]\<rparr>)"
    using Read_prefix [of r "le_encode width (length b)" "b @ ys"] assms(2) by simp
  moreover have "Read (length b) (r\<lparr>r_bytes := b @ ys, r_calls := r_calls r @ [CallRead width]\<rparr>) =
          (Inr b, r\<lparr>r_bytes := ys, r_calls := r_calls r @ [CallRead width, CallRead (length b)]\<rparr>)"
    using Read_prefix [of "r\<lparr>r_bytes := b @ ys, r_calls := r_calls r @ [CallRead width]\<rparr>" b ys]
    by simp
  ultimately show ?thesis
    using assms(1) by (simp add: Deserialize_blob_def le_decode_le_encode)
qed

lemma Deserialize_bool_byte:
  "r_bytes r = f # ys \<Longrightarrow>
   Deserialize_bool L r =
     (Inr (bool_of_byte L f), r\<lparr>r_bytes := ys, r_calls := r_calls r @ [CallRead 1]\<rparr>)"
  by (simp add: Deserialize_bool_def Read_def overwrite_def)

lemma Deserialize_bool_empty:
  "r_bytes r = [] \<Longrightarrow>
   Deserialize_bool L r = (Inl StreamFault, r\<lparr>r_calls := r_calls r @ [CallRead 1]\<rparr>)"
  by (simp add: Deserialize_bool_def Read_def)


lemma replay_done: "replay L False ht r = (None, ht, r)"
  by (subst replay.simps) simp

lemma replay_step:
  assumes "fits L x" and "r_bytes r = wire_record L x @ ys"
  shows "replay L True ht r =
     (case Add (fst x) (snd x) ht of
        Inl e \<Rightarrow> (Some e, ht, r\<lparr>r_bytes := ys, r_calls := r_calls r @ record_reads L x\<rparr>)
      | Inr ht1 \<Rightarrow>
        (case Deserialize_bool L (r\<lparr>r_bytes := ys, r_calls := r_calls r @ record_reads L x\<rparr>) of
           (Inl e, r3) \<Rightarrow> (Some e, ht1, r3)
         | (Inr next_flag, r3) \<Rightarrow>
             replay L next_flag
               (ht1\<lparr>m_perfData :=
                      Increment RecordsCountLoadedFromSerializer (m_perfData ht1)\<rparr>) r3))"
proof -
  let ?r1 = "r\<lparr>r_bytes := le_encode (sizeof_ValueSize L) (length (snd x)) @ snd x @ ys,
                r_calls := r_calls r @ [CallRead (sizeof_KeySize L), CallRead (length (fst x))]\<rparr>"
  have key: "Deserialize_blob (sizeof_KeySize L) r = (Inr (fst x), ?r1)"
    using assms Deserialize_blob_wire [of "fst x" "sizeof_KeySize L" r
        "le_encode (sizeof_ValueSize L) (length (snd x)) @ snd x @ ys"]
    by (simp add: fits_def wire_record_def)
  have val: "Deserialize_blob (sizeof_ValueSize L) ?r1 =
      (Inr (snd x), r\<lparr>r_bytes := ys, r_calls := r_calls r @ record_reads L x\<rparr>)"
    using assms(1) Deserialize_blob_wire [of "snd x" "sizeof_ValueSize L" ?r1 ys]
    by (simp add: fits_def record_reads_def)
  show ?thesis
    by (subst replay.simps) (simp add: key val)
qed


lemma Add_new:
  "fst x \<notin> set (map fst (m_records ht)) \<Longrightarrow>
   Add (fst x) (snd x) ht = Inr (ht\<lparr>m_records := m_records ht @ [x]\<rparr>)"
  by (simp add: Add_def)

lemma Add_present:
  "fst x \<in> set (map fst (m_records ht)) \<Longrightarrow>
   Add (fst x) (snd x) ht = Inl ReplayInvariantViolation"
  by (simp add: Add_def RegisterAction_def)

lemma replay_wire:
  assumes "flags_ok L" and "list_all (fits L) (x # xs)"
    and "distinct (map fst (m_records ht @ x # xs))"
    and "r_bytes r = wire_record L x @ wire_records L xs @ 0 # ys"
  shows "replay L True ht r =
     (None,
      ht\<lparr>m_records := m_records ht @ x # xs,
         m_perfData := (m_perfData ht)\<lparr>loaded := loaded (m_perfData ht) + Suc (length xs)\<rparr>\<rparr>,
      r\<lparr>r_bytes := ys, r_calls := r_calls r @ replay_reads L (x # xs)\<rparr>)"
  using assms
proof (induction xs arbitrary: x ht r)
  case Nil
  have new: "fst x \<notin> set (map fst (m_records ht))"
    using Nil.prems(3) by auto
  have "fits L x" and "r_bytes r = wire_record L x @ 0 # ys"
    using Nil.prems(2,4) by (simp_all add: wire_records_def)
  from replay_step [OF this, of ht] show ?case
    using Nil.prems(1)
    by (simp add: Add_new [OF new] Deserialize_bool_byte flags_ok_def replay_done
        replay_reads_def)
next
  case (Cons y xs)
  let ?ht1 = "ht\<lparr>m_records := m_records ht @ [x],
      m_perfData := Increment RecordsCountLoadedFromSerializer (m_perfData ht)\<rparr>"
  let ?r3 = "r\<lparr>r_bytes := wire_record L y @ wire_records L xs @ 0 # ys,
      r_calls := r_calls r @ record_reads L x @ [CallRead 1]\<rparr>"
  have new: "fst x \<notin> set (map fst (m_records ht))"
    using Cons.prems(3) by auto
  have "fits L x"
    and "r_bytes r = wire_record L x @ 1 # wire_record L y @ wire_records L xs @ 0 # ys"
    using Cons.prems(2,4) by (simp_all add: wire_records_def)
  from replay_step [OF this, of ht] have step: "replay L True ht r = replay L True ?ht1 ?r3"
    using Cons.prems(1)
    by (simp add: Add_new [OF new] Deserialize_bool_byte flags_ok_def)
  have "replay L True ?ht1 ?r3 =
     (None,
      ?ht1\<lparr>m_records := m_records ?ht1 @ y # xs,
         m_perfData := (m_perfData ?ht1)\<lparr>loaded := loaded (m_perfData ?ht1) + Suc (length xs)\<rparr>\<rparr>,
      ?r3\<lparr>r_bytes := ys, r_calls := r_calls ?r3 @ replay_reads L (y # xs)\<rparr>)"
    using Cons.prems(1,2,3) by (intro Cons.IH) simp_all
  then show ?case
    by (simp add: step replay_reads_def)
qed

lemma replay_truncated:
  assumes "flags_ok L" and "list_all (fits L) (x # xs)"
    and "distinct (map fst (m_records ht @ x # xs))"
    and "r_bytes r = wire_record L x @ wire_records L xs"
  shows "replay L True ht r =
     (Some StreamFault,
      ht\<lparr>m_records := m_records ht @ x # xs,
         m_perfData := (m_perfData ht)\<lparr>loaded := loaded (m_perfData ht) + length xs\<rparr>\<rparr>,
      r\<lparr>r_bytes := [], r_calls := r_calls r @ replay_reads L (x # xs)\<rparr>)"
  using assms
proof (induction xs arbitrary: x ht r)
  case Nil
  have new: "fst x \<notin> set (map fst (m_records ht))"
    using Nil.prems(3) by auto
  have "fits L x" and "r_bytes r = wire_record L x @ []"
    using Nil.prems(2,4) by (simp_all add: wire_records_def)
  from replay_step [OF this, of ht] show ?case
    by (simp add: Add_new [OF new] Deserialize_bool_empty replay_reads_def)
next
  case (Cons y xs)
  let ?ht1 = "ht\<lparr>m_records := m_records ht @ [x],
      m_perfData := Increment RecordsCountLoadedFromSerializer (m_perfData ht)\<rparr>"
  let ?r3 = "r\<lparr>r_bytes := wire_record L y @ wire_records L xs,
      r_calls := r_calls r @ record_reads L x @ [CallRead 1]\<rparr>"
  have new: "fst x \<notin> set (map fst (m_records ht))"
    using Cons.prems(3) by auto
  have "fits L x"
    and "r_bytes r = wire_record L x @ 1 # wire_record L y @ wire_records L xs"
    using Cons.prems(2,4) by (simp_all add: wire_records_def)
  from replay_step [OF this, of ht] have step: "replay L True ht r = replay L True ?ht1 ?r3"
    using Cons.prems(1)
    by (simp add: Add_new [OF new] Deserialize_bool_byte flags_ok_def)
  have "replay L True ?ht1 ?r3 =
     (Some StreamFault,
      ?ht1\<lparr>m_records := m_records ?ht1 @ y # xs,
         m_perfData := (m_perfData ?ht1)\<lparr>loaded := loaded (m_perfData ?ht1) + length xs\<rparr>\<rparr>,
      ?r3\<lparr>r_bytes := [], r_calls := r_calls ?r3 @ replay_reads L (y # xs)\<rparr>)"
    using Cons.prems(1,2,3) by (intro Cons.IH) simp_all
  then show ?case
    by (simp add: step replay_reads_def)
qed

lemma replay_duplicate:
  assumes "bool_of_byte L 1" and "list_all (fits L) (x # xs)"
    and "distinct (map fst (m_records ht))"
    and "\<not> distinct (map fst (m_records ht @ x # xs))"
    and "r_bytes r = wire_record L x @ wire_records L xs @ ys"
  shows "\<exists>ht' r'. replay L True ht r = (Some ReplayInvariantViolation, ht', r')"
  using assms
proof (induction xs arbitrary: x ht r)
  case Nil
  have old: "fst x \<in> set (map fst (m_records ht))"
    using Nil.prems(3,4) by auto
  have "fits L x" and "r_bytes r = wire_record L x @ ys"
    using Nil.prems(2,5) by (simp_all add: wire_records_def)
  from replay_step [OF this, of ht] show ?case
    by (simp add: Add_present [OF old])
next
  case (Cons y xs)
  show ?case
  proof (cases "fst x \<in> set (map fst (m_records ht))")
    case True
    have "fits L x" and "r_bytes r = wire_record L x @ wire_records L (y # xs) @ ys"
      using Cons.prems(2,5) by simp_all
    from replay_step [OF this, of ht] show ?thesis
      by (simp add: Add_present [OF True])
  next
    case False
    let ?ht1 = "ht\<lparr>m_records := m_records ht @ [x],
        m_perfData := Increment RecordsCountLoadedFromSerializer (m_perfData ht)\<rparr>"
    let ?r3 = "r\<lparr>r_bytes := wire_record L y @ wire_records L xs @ ys,
        r_calls := r_calls r @ record_reads L x @ [CallRead 1]\<rparr>"
    have "fits L x"
      and "r_bytes r = wire_record L x @ 1 # wire_record L y @ wire_records L xs @ ys"
      using Cons.prems(2,5) by (simp_all add: wire_records_def)
    from replay_step [OF this, of ht] have step: "replay L True ht r = replay L True ?ht1 ?r3"
      using Cons.prems(1)
      by (simp add: Add_new [OF False] Deserialize_bool_byte)
    have "\<exists>ht' r'. replay L True ?ht1 ?r3 = (Some ReplayInvariantViolation, ht', r')"
      using Cons.prems(1,2,3,4) False by (intro Cons.IH) simp_all
    then show ?thesis
      by (simp add: step)
  qed
qed


lemma wire_records_Cons:
  "wire_records L (x # xs) = 1 # wire_record L x @ wire_records L xs"
  by (simp add: wire_records_def)

lemma wire_records_Nil: "wire_records L [] = []"
  by (simp add: wire_records_def)

lemma Serialize_records_ok:
  assumes "list_all (fits L) recs" and "length (wire_records L recs) \<le> w_room w"
  shows "Serialize_records L recs perf w =
     (None, perf\<lparr>saved := saved perf + length recs\<rparr>,
      w\<lparr>w_bytes := w_bytes w @ wire_records L recs,
        w_room := w_room w - length (wire_records L recs),
        w_calls := w_calls w @ table_writes L recs\<rparr>)"
  using assms
proof (induction recs arbitrary: perf w)
  case Nil
  show ?case by (simp add: wire_records_Nil table_writes_def)
next
  case (Cons x xs)
  obtain key val where x: "x = (key, val)" by (cases x)
  have sz: "blob_size (sizeof_KeySize L) key = length key"
    "blob_size (sizeof_ValueSize L) val = length val"
    using Cons.prems(1) by (simp_all add: x fits_def blob_size_fits)
  let ?w5 = "w\<lparr>w_bytes := w_bytes w @ 1 # wire_record L x,
      w_room := w_room w - Suc (length (wire_record L x)),
      w_calls := w_calls w @ record_writes L x\<rparr>"
  have room: "Suc (length (wire_record L x)) + length (wire_records L xs) \<le> w_room w"
    using Cons.prems(2) by (simp add: wire_records_Cons)
  have fit: "Suc 0 \<le> w_room w" "sizeof_KeySize L \<le> w_room w - Suc 0"
    "length key \<le> w_room w - Suc (sizeof_KeySize L)"
    "sizeof_ValueSize L \<le> w_room w - Suc (sizeof_KeySize L + length key)"
    "length val \<le> w_room w - Suc (sizeof_KeySize L + length key + sizeof_ValueSize L)"
    using room by (simp_all add: x wire_record_def)
  have head: "Serialize_records L (x # xs) perf w =
      Serialize_records L xs (Increment RecordsCountSavedFromSerializer perf) ?w5"
    using fit by (simp add: x sz Write_def wire_record_def record_writes_def add.assoc)
  have "Serialize_records L xs (Increment RecordsCountSavedFromSerializer perf) ?w5 =
     (None, (Increment RecordsCountSavedFromSerializer perf)
              \<lparr>saved := saved (Increment RecordsCountSavedFromSerializer perf) + length xs\<rparr>,
      ?w5\<lparr>w_bytes := w_bytes ?w5 @ wire_records L xs,
        w_room := w_room ?w5 - length (wire_records L xs),
        w_calls := w_calls ?w5 @ table_writes L xs\<rparr>)"
    using Cons.prems(1) room by (intro Cons.IH) simp_all
  then show ?case
    by (simp add: head wire_records_Cons table_writes_def)
qed

lemma Serialize_records_None:
  assumes "list_all (fits L) recs" and "Serialize_records L recs perf w = (None, perf', w')"
  shows "length (wire_records L recs) \<le> w_room w"
  using assms
proof (induction recs arbitrary: perf w)
  case Nil
  show ?case by (simp add: wire_records_Nil)
next
  case (Cons x xs)
  obtain key val where x: "x = (key, val)" by (cases x)
  have sz: "blob_size (sizeof_KeySize L) key = length key"
    "blob_size (sizeof_ValueSize L) val = length val"
    using Cons.prems(1) by (simp_all add: x fits_def blob_size_fits)
  let ?w5 = "w\<lparr>w_bytes := w_bytes w @ 1 # wire_record L x,
      w_room := w_room w - Suc (length (wire_record L x)),
      w_calls := w_calls w @ record_writes L x\<rparr>"
  have head: "Suc (length (wire_record L x)) \<le> w_room w \<and>
      Serialize_records L xs (Increment RecordsCountSavedFromSerializer perf) ?w5 = (None, perf', w')"
    using Cons.prems(2)
    by (simp add: x sz Write_def wire_record_def record_writes_def add.assoc
        split: if_splits)
  then have "length (wire_records L xs) \<le> w_room ?w5"
    using Cons.prems(1) Cons.IH [of "Increment RecordsCountSavedFromSerializer perf" ?w5]
    by simp
  then have "length (wire_records L xs) \<le> w_room w - Suc (length (wire_record L x))"
    by simp
  moreover have "Suc (length (wire_record L x)) \<le> w_room w"
    using head by simp
  ultimately have "Suc (length (wire_record L x)) + length (wire_records L xs) \<le> w_room w"
    by arith
  then show ?case
    by (simp add: wire_records_Cons)
qed

lemma only_writes_refl: "only_writes w w"
  unfolding only_writes_def by (rule exI [of _ "[]"]) simp

lemma only_writes_trans: "only_writes w w1 \<Longrightarrow> only_writes w1 w2 \<Longrightarrow> only_writes w w2"
  unfolding only_writes_def
proof (elim exE)
  fix ns ms
  assume "w_calls w1 = w_calls w @ map CallWrite ns" "w_calls w2 = w_calls w1 @ map CallWrite ms"
  then have "w_calls w2 = w_calls w @ map CallWrite (ns @ ms)" by simp
  then show "\<exists>ns. w_calls w2 = w_calls w @ map CallWrite ns" ..
qed

lemma only_reads_refl: "only_reads r r"
  unfolding only_reads_def by (rule exI [of _ "[]"]) simp

lemma only_reads_trans: "only_reads r r1 \<Longrightarrow> only_reads r1 r2 \<Longrightarrow> only_reads r r2"
  unfolding only_reads_def
proof (elim exE)
  fix ns ms
  assume "r_calls r1 = r_calls r @ map CallRead ns" "r_calls r2 = r_calls r1 @ map CallRead ms"
  then have "r_calls r2 = r_calls r @ map CallRead (ns @ ms)" by simp
  then show "\<exists>ns. r_calls r2 = r_calls r @ map CallRead ns" ..
qed

lemma Write_calls: "Write bs w = (e, w') \<Longrightarrow> only_writes w w'"
  unfolding only_writes_def
  by (rule exI [of _ "[length bs]"]) (auto simp: Write_def split: if_splits)

lemma Read_calls: "Read n r = (res, r') \<Longrightarrow> only_reads r r'"
  unfolding only_reads_def
  by (rule exI [of _ "[n]"]) (auto simp: Read_def split: if_splits)

lemma Deserialize_blob_calls: "Deserialize_blob width r = (res, r') \<Longrightarrow> only_reads r r'"
  unfolding Deserialize_blob_def
  by (auto split: prod.splits sum.splits dest!: Read_calls intro: only_reads_trans)

lemma Deserialize_bool_calls: "Deserialize_bool L r = (res, r') \<Longrightarrow> only_reads r r'"
  unfolding Deserialize_bool_def
  by (auto split: prod.splits sum.splits dest!: Read_calls)

lemma Serialize_records_calls:
  "Serialize_records L recs perf w = (e, perf', w') \<Longrightarrow> only_writes w w'"
proof (induction recs arbitrary: perf w)
  case Nil
  then show ?case by (simp add: only_writes_refl)
next
  case (Cons x xs)
  obtain key val where x: "x = (key, val)" by (cases x)
  show ?case
    using Cons.prems
    by (auto simp: x split: prod.splits option.splits dest!: Write_calls Cons.IH)
      (meson only_writes_trans)+
qed

lemma replay_calls: "replay L b ht r = (e, ht', r') \<Longrightarrow> only_reads r r'"
proof (induction L b ht r rule: replay.induct)
  case (1 L hasMoreData ht r)
  show ?case
  proof (cases hasMoreData)
    case False
    then show ?thesis
      using "1.prems" by (simp add: replay_done only_reads_refl)
  next
    case True
    show ?thesis
      using "1.prems" "1.IH" True
      apply (subst (asm) replay.simps)
      apply (auto split: prod.splits sum.splits
          dest!: Deserialize_blob_calls Deserialize_bool_calls)
      apply (meson only_reads_trans)+
      done
  qed
qed

subsection \<open>Whole runs on a valid table and on its byte layout\<close>

lemma Current_Serialize_ok:
  assumes "valid_table L T" and "length (wire_table L T) \<le> w_room w"
  shows "Current_Serialize L T w =
     (None,
      T\<lparr>m_perfData := (m_perfData T)\<lparr>saved := length (m_records T)\<rparr>\<rparr>,
      w\<lparr>w_bytes := w_bytes w @ wire_table L T,
        w_room := w_room w - length (wire_table L T),
        w_calls := w_calls w @ CallBegin # CallWrite 1 # CallWrite (sizeof_Setting L) #
                     table_writes L (m_records T) @ [CallWrite 1, CallEnd]\<rparr>)"
proof -
  let ?perf0 = "Set_counter RecordsCountSavedFromSerializer 0 (m_perfData T)"
  let ?w2 = "w\<lparr>w_bytes := w_bytes w @ c_version # m_setting T,
      w_room := w_room w - Suc (sizeof_Setting L),
      w_calls := w_calls w @ [CallBegin, CallWrite 1, CallWrite (sizeof_Setting L)]\<rparr>"
  have len: "length (m_setting T) = sizeof_Setting L" and fit: "list_all (fits L) (m_records T)"
    using assms(1) by (simp_all add: valid_table_def)
  have room: "Suc (sizeof_Setting L) + length (wire_records L (m_records T)) + 1 \<le> w_room w"
    using assms(2) len by (simp add: wire_table_def)
  have recs: "Serialize_records L (m_records T) ?perf0 ?w2 =
     (None, ?perf0\<lparr>saved := saved ?perf0 + length (m_records T)\<rparr>,
      ?w2\<lparr>w_bytes := w_bytes ?w2 @ wire_records L (m_records T),
        w_room := w_room ?w2 - length (wire_records L (m_records T)),
        w_calls := w_calls ?w2 @ table_writes L (m_records T)\<rparr>)"
    using fit room by (intro Serialize_records_ok) simp_all
  have fit1: "Suc 0 \<le> w_room w" "sizeof_Setting L \<le> w_room w - Suc 0"
    "Suc 0 \<le> w_room w - Suc (sizeof_Setting L) - length (wire_records L (m_records T))"
    using room by simp_all
  show ?thesis
    unfolding Current_Serialize_def Let_def
    using fit1
    by (simp add: Write_def writer_Begin_def writer_End_def len recs [simplified]
        wire_table_def add.assoc)
qed

lemma Current_Serialize_None:
  assumes "valid_table L T" and "Current_Serialize L T w = (None, T', w')"
  shows "length (wire_table L T) \<le> w_room w"
proof -
  let ?perf0 = "Set_counter RecordsCountSavedFromSerializer 0 (m_perfData T)"
  let ?w2 = "w\<lparr>w_bytes := w_bytes w @ c_version # m_setting T,
      w_room := w_room w - Suc (sizeof_Setting L),
      w_calls := w_calls w @ [CallBegin, CallWrite 1, CallWrite (sizeof_Setting L)]\<rparr>"
  have len: "length (m_setting T) = sizeof_Setting L" and fit: "list_all (fits L) (m_records T)"
    using assms(1) by (simp_all add: valid_table_def)
  from assms(2) obtain perf w3 where
    a: "Suc 0 \<le> w_room w" "sizeof_Setting L \<le> w_room w - Suc 0"
    and b: "Serialize_records L (m_records T) ?perf0 ?w2 = (None, perf, w3)"
    and c: "Suc 0 \<le> w_room w3"
    unfolding Current_Serialize_def Let_def
    by (auto simp: Write_def writer_Begin_def len split: if_splits prod.splits option.splits)
  have d: "length (wire_records L (m_records T)) \<le> w_room ?w2"
    using fit b by (rule Serialize_records_None)
  have "w3 = ?w2\<lparr>w_bytes := w_bytes ?w2 @ wire_records L (m_records T),
        w_room := w_room ?w2 - length (wire_records L (m_records T)),
        w_calls := w_calls ?w2 @ table_writes L (m_records T)\<rparr>"
    using b Serialize_records_ok [OF fit d, of ?perf0] by simp
  then have "Suc 0 \<le> w_room w - Suc (sizeof_Setting L) - length (wire_records L (m_records T))"
    using c by simp
  then show ?thesis
    using a d len by (simp add: wire_table_def)
qed

lemma Current_Deserialize_wire:
  assumes "flags_ok L" and "valid_table L T"
    and "r_bytes r = m_setting T @ wire_records L (m_records T) @ 0 # ys"
  shows "Current_Deserialize L r =
     (Inr \<lparr>m_setting = m_setting T,
           m_perfData = \<lparr>saved = 0, loaded = length (m_records T)\<rparr>,
           m_records = m_records T\<rparr>,
      r\<lparr>r_bytes := ys,
        r_calls := r_calls r @ CallRead (sizeof_Setting L) # CallRead 1 #
                     replay_reads L (m_records T) @ [CallEnd]\<rparr>)"
proof -
  have len: "length (m_setting T) = sizeof_Setting L" and fit: "list_all (fits L) (m_records T)"
    and dist: "distinct (map fst (m_records T))"
    using assms(2) by (simp_all add: valid_table_def)
  let ?r1 = "r\<lparr>r_bytes := wire_records L (m_records T) @ 0 # ys,
      r_calls := r_calls r @ [CallRead (sizeof_Setting L)]\<rparr>"
  have setting: "Read (sizeof_Setting L) r = (Inr (m_setting T), ?r1)"
    using Read_prefix [of r "m_setting T" "wire_records L (m_records T) @ 0 # ys"] assms(3) len
    by simp
  show ?thesis
  proof (cases "m_records T")
    case Nil
    have "Deserialize_bool L ?r1 =
        (Inr False, r\<lparr>r_bytes := ys,
           r_calls := r_calls r @ [CallRead (sizeof_Setting L), CallRead 1]\<rparr>)"
      using assms(1) Deserialize_bool_byte [of ?r1 0 ys L]
      by (simp add: Nil wire_records_Nil flags_ok_def)
    then show ?thesis
      by (simp add: Current_Deserialize_def setting replay_done MakeUnique_def reader_End_def
          Nil replay_reads_def)
  next
    case (Cons x xs)
    let ?r2 = "r\<lparr>r_bytes := wire_record L x @ wire_records L xs @ 0 # ys,
        r_calls := r_calls r @ [CallRead (sizeof_Setting L), CallRead 1]\<rparr>"
    have flag: "Deserialize_bool L ?r1 = (Inr True, ?r2)"
      using assms(1) Deserialize_bool_byte [of ?r1 1 "wire_record L x @ wire_records L xs @ 0 # ys" L]
      by (simp add: Cons wire_records_Cons flags_ok_def)
    have "replay L True (MakeUnique (m_setting T)) ?r2 =
       (None,
        (MakeUnique (m_setting T))\<lparr>m_records := m_records (MakeUnique (m_setting T)) @ x # xs,
           m_perfData := (m_perfData (MakeUnique (m_setting T)))
              \<lparr>loaded := loaded (m_perfData (MakeUnique (m_setting T))) + Suc (length xs)\<rparr>\<rparr>,
        ?r2\<lparr>r_bytes := ys, r_calls := r_calls ?r2 @ replay_reads L (x # xs)\<rparr>)"
      using assms(1) fit dist by (intro replay_wire) (simp_all add: Cons MakeUnique_def)
    then show ?thesis
      by (simp add: Current_Deserialize_def setting flag [unfolded Cons] MakeUnique_def
          reader_End_def Cons)
  qed
qed

lemma Deserialize_wire:
  assumes "flags_ok L" and "valid_table L T" and "r_bytes r = wire_table L T @ ys"
  shows "Deserialize L r =
     (Inr \<lparr>m_setting = m_setting T,
           m_perfData = \<lparr>saved = 0, loaded = length (m_records T)\<rparr>,
           m_records = m_records T\<rparr>,
      r\<lparr>r_bytes := ys,
        r_calls := r_calls r @ CallBegin # CallRead 1 # CallRead (sizeof_Setting L) #
                     CallRead 1 # replay_reads L (m_records T) @ [CallEnd]\<rparr>)"
proof -
  let ?r1 = "r\<lparr>r_bytes := m_setting T @ wire_records L (m_records T) @ 0 # ys,
      r_calls := r_calls r @ [CallBegin, CallRead 1]\<rparr>"
  have "Read 1 (reader_Begin r) = (Inr [c_version], ?r1)"
    using assms(3) by (simp add: Read_def reader_Begin_def wire_table_def)
  moreover have "Current_Deserialize L ?r1 =
     (Inr \<lparr>m_setting = m_setting T,
           m_perfData = \<lparr>saved = 0, loaded = length (m_records T)\<rparr>,
           m_records = m_records T\<rparr>,
      ?r1\<lparr>r_bytes := ys,
        r_calls := r_calls ?r1 @ CallRead (sizeof_Setting L) # CallRead 1 #
                     replay_reads L (m_records T) @ [CallEnd]\<rparr>)"
    using assms(1,2) by (intro Current_Deserialize_wire) simp_all
  ultimately show ?thesis
    by (simp add: Deserialize_def overwrite_def)
qed

lemma replay_errors:
  "replay L b ht r = (Some e, ht', r') \<Longrightarrow> e = StreamFault \<or> e = ReplayInvariantViolation"
proof (induction L b ht r rule: replay.induct)
  case (1 L hasMoreData ht r)
  show ?case
  proof (cases hasMoreData)
    case False
    then show ?thesis
      using "1.prems" by (simp add: replay_done)
  next
    case True
    show ?thesis
      using "1.prems" "1.IH" True
      apply (subst (asm) replay.simps)
      apply (auto simp: Deserialize_blob_def Deserialize_bool_def Read_def Add_def
          RegisterAction_def split: prod.splits sum.splits if_splits)
      done
  qed
qed

lemma Current_Deserialize_errors:
  "Current_Deserialize L r = (Inl e, r') \<Longrightarrow> e = StreamFault \<or> e = ReplayInvariantViolation"
  unfolding Current_Deserialize_def
  by (auto simp: Read_def Deserialize_bool_def split: prod.splits sum.splits if_splits option.splits
      dest: replay_errors)

lemma le_encode_numeral:
  "le_encode (numeral k) x = word_of_nat (x mod 256) # le_encode (pred_numeral k) (x div 256)"
proof -
  have "le_encode (Suc (pred_numeral k)) x =
      word_of_nat (x mod 256) # le_encode (pred_numeral k) (x div 256)"
    by (rule le_encode.simps(2))
  then show ?thesis
    by (simp only: numeral_eq_Suc [of k, symmetric])
qed

lemma Serialize_success:
  assumes "valid_table L T" and "Serialize L T w = (None, T', w')"
  shows "T' = T\<lparr>m_perfData := (m_perfData T)\<lparr>saved := length (m_records T)\<rparr>\<rparr>"
    and "w_bytes w' = w_bytes w @ wire_table L T"
    and "w_calls w' = w_calls w @ CallBegin # CallWrite 1 # CallWrite (sizeof_Setting L) #
                     table_writes L (m_records T) @ [CallWrite 1, CallEnd]"
proof -
  have run: "Current_Serialize L T w = (None, T', w')"
    using assms(2) by (simp add: Serialize_def)
  have "length (wire_table L T) \<le> w_room w"
    using assms(1) run by (rule Current_Serialize_None)
  from Current_Serialize_ok [OF assms(1) this] run
  show "T' = T\<lparr>m_perfData := (m_perfData T)\<lparr>saved := length (m_records T)\<rparr>\<rparr>"
    and "w_bytes w' = w_bytes w @ wire_table L T"
    and "w_calls w' = w_calls w @ CallBegin # CallWrite 1 # CallWrite (sizeof_Setting L) #
                     table_writes L (m_records T) @ [CallWrite 1, CallEnd]"
    by auto
qed

lemma Current_Deserialize_calls:
  assumes "Current_Deserialize L r = (res, r')"
  shows "\<exists>ns. r_calls r' = r_calls r @ map CallRead ns @ (if isl res then [] else [CallEnd])"
proof -
  have "\<exists>r3. only_reads r r3 \<and> r' = (if isl res then r3 else reader_End r3)"
    using assms unfolding Current_Deserialize_def
    by (auto split: prod.splits sum.splits option.splits
        dest!: Read_calls Deserialize_bool_calls replay_calls intro: only_reads_trans)
      (blast intro: only_reads_trans)+
  then obtain r3 ns where "r_calls r3 = r_calls r @ map CallRead ns"
    and "r' = (if isl res then r3 else reader_End r3)"
    unfolding only_reads_def by blast
  then have "r_calls r' = r_calls r @ map CallRead ns @ (if isl res then [] else [CallEnd])"
    by (simp add: reader_End_def)
  then show ?thesis ..
qed

lemma Deserialize_calls:
  assumes "Deserialize L r = (res, r')"
  shows "\<exists>ns. r_calls r' =
     r_calls r @ CallBegin # CallRead 1 # map CallRead ns @ (if isl res then [] else [CallEnd])"
proof (cases "r_bytes r")
  case Nil
  then have "r_calls r' = r_calls r @ CallBegin # CallRead 1 # map CallRead [] @
      (if isl res then [] else [CallEnd])"
    using assms by (auto simp: Deserialize_def Read_def reader_Begin_def)
  then show ?thesis ..
next
  case (Cons version rest)
  let ?r1 = "r\<lparr>r_bytes := rest, r_calls := r_calls r @ [CallBegin, CallRead 1]\<rparr>"
  show ?thesis
  proof (cases "version = c_version")
    case True
    then have "Current_Deserialize L ?r1 = (res, r')"
      using assms Cons by (simp add: Deserialize_def Read_def reader_Begin_def overwrite_def)
    from Current_Deserialize_calls [OF this] show ?thesis by simp
  next
    case False
    then have "r_calls r' = r_calls r @ CallBegin # CallRead 1 # map CallRead [] @
        (if isl res then [] else [CallEnd])"
      using assms Cons
      by (auto simp: Deserialize_def Read_def reader_Begin_def overwrite_def)
    then show ?thesis ..
  qed
qed

lemma Current_Serialize_calls:
  assumes "Current_Serialize L T w = (e, T', w')"
  shows "\<exists>ns. w_calls w' =
     w_calls w @ CallBegin # map CallWrite ns @ (if e = None then [CallEnd] else [])"
proof -
  have "\<exists>w4. only_writes (writer_Begin w) w4 \<and> w' = (if e = None then writer_End w4 else w4)"
    using assms unfolding Current_Serialize_def Let_def
    by (auto split: prod.splits option.splits
        dest!: Write_calls Serialize_records_calls intro: only_writes_trans)
      (blast intro: only_writes_trans)+
  then obtain w4 ns where "w_calls w4 = w_calls (writer_Begin w) @ map CallWrite ns"
    and "w' = (if e = None then writer_End w4 else w4)"
    unfolding only_writes_def by blast
  then have "w_calls w' =
     w_calls w @ CallBegin # map CallWrite ns @ (if e = None then [CallEnd] else [])"
    by (simp add: writer_End_def writer_Begin_def)
  then show ?thesis ..
qed

subsection \<open>Values for the instances\<close>

text \<open>
  A build with a two-byte settings blob and four-byte sizes, in which every byte but
  zero reads as \<^verbatim>\<open>true\<close>; a table with two records, one of them with an empty
  key and an empty value; a writer with room for 64 bytes; a reader at the start of a
  given byte sequence.
\<close>

definition new_reader :: "byte list \<Rightarrow> reader" where
  "new_reader bs = \<lparr>r_bytes = bs, r_calls = []\<rparr>"

definition example_layout :: layout where
  "example_layout =
     \<lparr>sizeof_Setting = 2, sizeof_KeySize = 4, sizeof_ValueSize = 4,
      bool_of_byte = (\<lambda>b. b \<noteq> 0)\<rparr>"

definition example_table :: hashTable where
  "example_table =
     \<lparr>m_setting = [7, 9], m_perfData = \<lparr>saved = 5, loaded = 0\<rparr>,
      m_records = [([1, 2], [3]), ([], [])]\<rparr>"

definition example_writer :: writer where
  "example_writer = \<lparr>w_bytes = [], w_room = 64, w_calls = []\<rparr>"

definition empty_example :: hashTable where
  "empty_example = \<lparr>m_setting = [7, 9], m_perfData = \<lparr>saved = 5, loaded = 8\<rparr>, m_records = []\<rparr>"

definition example_bytes :: "byte list" where
  "example_bytes =
     [3, 7, 9, 1, 2, 0, 0, 0, 1, 2, 1, 0, 0, 0, 3, 1, 0, 0, 0, 0, 0, 0, 0, 0, 0]"

lemma example_run:
  "Serialize example_layout example_table example_writer =
     (None,
      \<lparr>m_setting = [7, 9], m_perfData = \<lparr>saved = 2, loaded = 0\<rparr>,
       m_records = [([1, 2], [3]), ([], [])]\<rparr>,
      \<lparr>w_bytes = [3, 7, 9, 1, 2, 0, 0, 0, 1, 2, 1, 0, 0, 0, 3, 1, 0, 0, 0, 0, 0, 0, 0, 0, 0],
       w_room = 39,
       w_calls = [CallBegin, CallWrite 1, CallWrite 2, CallWrite 1, CallWrite 4, CallWrite 2,
                  CallWrite 4, CallWrite 1, CallWrite 1, CallWrite 4, CallWrite 0, CallWrite 4,
                  CallWrite 0, CallWrite 1, CallEnd]\<rparr>)"
  by (simp add: Serialize_def Current_Serialize_def example_layout_def example_table_def
      example_writer_def Write_def writer_Begin_def writer_End_def blob_size_def c_version_def
      le_encode_numeral)

lemma example_valid: "flags_ok example_layout" "valid_table example_layout example_table"
  by (simp_all add: flags_ok_def valid_table_def fits_def example_layout_def example_table_def)

lemma example_wire: "wire_table example_layout example_table = example_bytes"
  by (simp add: wire_table_def wire_records_def wire_record_def example_layout_def
      example_table_def example_bytes_def c_version_def le_encode_numeral)

lemma example_read:
  "Deserialize example_layout (new_reader example_bytes) =
     (Inr \<lparr>m_setting = [7, 9], m_perfData = \<lparr>saved = 0, loaded = 2\<rparr>,
           m_records = [([1, 2], [3]), ([], [])]\<rparr>,
      \<lparr>r_bytes = [],
       r_calls = [CallBegin, CallRead 1, CallRead 2, CallRead 1, CallRead 4, CallRead 2,
                  CallRead 4, CallRead 1, CallRead 1, CallRead 4, CallRead 0, CallRead 4,
                  CallRead 0, CallRead 1, CallEnd]\<rparr>)"
proof -
  have "r_bytes (new_reader example_bytes) = wire_table example_layout example_table @ []"
    by (simp add: new_reader_def example_wire)
  from Deserialize_wire [OF example_valid this] show ?thesis
    by (simp add: new_reader_def example_layout_def example_table_def replay_reads_def
        record_reads_def numeral_2_eq_2)
qed

section \<open>The claims\<close>

text \<open>
  C3. A stream whose first byte is not the registered version tag makes the driver's
  \<open>Deserialize\<close> fail with \<open>UnsupportedVersion\<close> of that byte. The reader is left right
  after the version byte: the only calls made on it are \<open>Begin\<close> and the one-byte read,
  and every byte after the tag is still unread.
\<close>

theorem unsupported_version:
  assumes "version \<noteq> c_version"
  shows "Deserialize L \<lparr>r_bytes = version # rest, r_calls = calls\<rparr> =
     (Inl (UnsupportedVersion version),
      \<lparr>r_bytes = rest, r_calls = calls @ [CallBegin, CallRead 1]\<rparr>)"
  using assms by (simp add: Deserialize_def Read_def reader_Begin_def overwrite_def)

theorem unsupported_version_witness:
  "(255 :: byte) \<noteq> c_version \<and>
   Deserialize example_layout (new_reader [255, 7, 9, 0]) =
     (Inl (UnsupportedVersion 255), \<lparr>r_bytes = [7, 9, 0], r_calls = [CallBegin, CallRead 1]\<rparr>)"
proof -
  have h: "(255 :: byte) \<noteq> c_version"
    by (simp add: c_version_def)
  show ?thesis
    using h unsupported_version [OF h, of example_layout "[7, 9, 0]" "[]"]
    by (simp add: new_reader_def)
qed

text \<open>
  C4. A successful \<open>Serialize\<close> of a table without records appends exactly the version
  tag 3, the settings blob and one presence flag 0 to the stream. \<open>Deserialize\<close> of
  these bytes returns a table with the same settings, no record and counters at zero,
  and consumes them all.
\<close>

theorem empty_table:
  assumes "m_records T = []" and "length (m_setting T) = sizeof_Setting L"
    and "\<not> bool_of_byte L 0"
    and "Serialize L T w = (None, T', w')"
  shows "c_version = 3 \<and>
    w_bytes w' = w_bytes w @ [c_version] @ m_setting T @ [0] \<and>
    Deserialize L (new_reader ([c_version] @ m_setting T @ [0])) =
      (Inr \<lparr>m_setting = m_setting T, m_perfData = \<lparr>saved = 0, loaded = 0\<rparr>, m_records = []\<rparr>,
       \<lparr>r_bytes = [],
        r_calls = [CallBegin, CallRead 1, CallRead (sizeof_Setting L), CallRead 1, CallEnd]\<rparr>)"
proof -
  have "w_bytes w' = w_bytes w @ [c_version] @ m_setting T @ [0]"
    using assms(4)
    unfolding Serialize_def Current_Serialize_def Let_def
    by (auto simp: assms(1,2) Write_def writer_Begin_def writer_End_def
        split: if_splits)
  moreover have "Read 1 (reader_Begin (new_reader ([c_version] @ m_setting T @ [0]))) =
      (Inr [c_version], \<lparr>r_bytes = m_setting T @ [0], r_calls = [CallBegin, CallRead 1]\<rparr>)"
    by (simp add: Read_def reader_Begin_def new_reader_def)
  moreover have "Read (sizeof_Setting L)
        \<lparr>r_bytes = m_setting T @ [0], r_calls = [CallBegin, CallRead 1]\<rparr> =
      (Inr (m_setting T),
       \<lparr>r_bytes = [0], r_calls = [CallBegin, CallRead 1, CallRead (sizeof_Setting L)]\<rparr>)"
    using Read_prefix [of "\<lparr>r_bytes = m_setting T @ [0], r_calls = [CallBegin, CallRead 1]\<rparr>"
        "m_setting T" "[0]"] assms(2)
    by simp
  moreover have "Deserialize_bool L
        \<lparr>r_bytes = [0], r_calls = [CallBegin, CallRead 1, CallRead (sizeof_Setting L)]\<rparr> =
      (Inr False,
       \<lparr>r_bytes = [],
        r_calls = [CallBegin, CallRead 1, CallRead (sizeof_Setting L), CallRead 1]\<rparr>)"
    using assms(3) by (simp add: Deserialize_bool_def Read_def overwrite_def)
  ultimately have "w_bytes w' = w_bytes w @ [c_version] @ m_setting T @ [0] \<and>
    Deserialize L (new_reader ([c_version] @ m_setting T @ [0])) =
      (Inr \<lparr>m_setting = m_setting T, m_perfData = \<lparr>saved = 0, loaded = 0\<rparr>, m_records = []\<rparr>,
       \<lparr>r_bytes = [],
        r_calls = [CallBegin, CallRead 1, CallRead (sizeof_Setting L), CallRead 1, CallEnd]\<rparr>)"
    by (simp add: Deserialize_def overwrite_def Current_Deserialize_def replay_done
        MakeUnique_def reader_End_def)
  then show ?thesis
    by (simp add: c_version_def)
qed

theorem empty_table_witness:
  "Serialize example_layout empty_example example_writer =
     (None,
      \<lparr>m_setting = [7, 9], m_perfData = \<lparr>saved = 0, loaded = 8\<rparr>, m_records = []\<rparr>,
      \<lparr>w_bytes = [3, 7, 9, 0], w_room = 60,
       w_calls = [CallBegin, CallWrite 1, CallWrite 2, CallWrite 1, CallEnd]\<rparr>) \<and>
   Deserialize example_layout (new_reader [3, 7, 9, 0]) =
     (Inr \<lparr>m_setting = [7, 9], m_perfData = \<lparr>saved = 0, loaded = 0\<rparr>, m_records = []\<rparr>,
      \<lparr>r_bytes = [], r_calls = [CallBegin, CallRead 1, CallRead 2, CallRead 1, CallEnd]\<rparr>)"
proof -
  have run: "Serialize example_layout empty_example example_writer =
     (None,
      \<lparr>m_setting = [7, 9], m_perfData = \<lparr>saved = 0, loaded = 8\<rparr>, m_records = []\<rparr>,
      \<lparr>w_bytes = [3, 7, 9, 0], w_room = 60,
       w_calls = [CallBegin, CallWrite 1, CallWrite 2, CallWrite 1, CallEnd]\<rparr>)"
    by (simp add: Serialize_def Current_Serialize_def example_layout_def empty_example_def
        example_writer_def Write_def writer_Begin_def writer_End_def c_version_def)
  have "m_records empty_example = []"
    and "length (m_setting empty_example) = sizeof_Setting example_layout"
    and "\<not> bool_of_byte example_layout 0"
    by (simp_all add: empty_example_def example_layout_def)
  from empty_table [OF this run] show ?thesis
    using run by (simp add: empty_example_def example_layout_def c_version_def)
qed

text \<open>
  C6. The claim asks that every tag that was the current version before 3 still selects
  a reader. The namespace \<^verbatim>\<open>Deprecated\<close> of the header is empty and the
  \<^verbatim>\<open>switch\<close> of the driver has the single case \<^verbatim>\<open>Current::c_version\<close>:
  a stream that starts with the tag 2 and goes on as an empty snapshot is refused with
  \<open>UnsupportedVersion 2\<close>.
\<close>

theorem prior_tag_counterexample:
  "Deserialize example_layout (new_reader [2, 7, 9, 0]) =
     (Inl (UnsupportedVersion 2), \<lparr>r_bytes = [7, 9, 0], r_calls = [CallBegin, CallRead 1]\<rparr>)"
  by (simp add: Deserialize_def Read_def reader_Begin_def overwrite_def new_reader_def
      c_version_def)

text \<open>
  C6, as amended. The driver dispatches exactly one tag, the current one. On the first
  byte \<open>c_version\<close> a run of \<open>Deserialize\<close> is the run of \<open>Current_Deserialize\<close> on
  the rest of the stream, and on the bytes of a valid table it returns that table. On
  every other first byte the run fails with \<open>UnsupportedVersion\<close> of that byte and
  leaves the rest unread. So \<open>Deserialize\<close> fails with \<open>UnsupportedVersion\<close> of the
  first byte if and only if that byte differs from \<open>c_version\<close>: no earlier tag selects
  a reader, and the current tag is never refused as unsupported.
\<close>

theorem only_current_version_dispatched:
  "Deserialize L \<lparr>r_bytes = version # rest, r_calls = calls\<rparr> =
     (if version = c_version
      then Current_Deserialize L \<lparr>r_bytes = rest, r_calls = calls @ [CallBegin, CallRead 1]\<rparr>
      else (Inl (UnsupportedVersion version),
            \<lparr>r_bytes = rest, r_calls = calls @ [CallBegin, CallRead 1]\<rparr>)) \<and>
   ((\<exists>r'. Deserialize L \<lparr>r_bytes = version # rest, r_calls = calls\<rparr> =
            (Inl (UnsupportedVersion version), r')) \<longleftrightarrow> version \<noteq> c_version) \<and>
   (flags_ok L \<and> valid_table L T \<and> version # rest = wire_table L T @ ys \<longrightarrow>
      version = c_version \<and>
      (\<exists>r'. Deserialize L \<lparr>r_bytes = version # rest, r_calls = calls\<rparr> =
         (Inr \<lparr>m_setting = m_setting T,
               m_perfData = \<lparr>saved = 0, loaded = length (m_records T)\<rparr>,
               m_records = m_records T\<rparr>, r')))"
proof (intro conjI impI)
  show run: "Deserialize L \<lparr>r_bytes = version # rest, r_calls = calls\<rparr> =
     (if version = c_version
      then Current_Deserialize L \<lparr>r_bytes = rest, r_calls = calls @ [CallBegin, CallRead 1]\<rparr>
      else (Inl (UnsupportedVersion version),
            \<lparr>r_bytes = rest, r_calls = calls @ [CallBegin, CallRead 1]\<rparr>))"
    by (simp add: Deserialize_def Read_def reader_Begin_def overwrite_def)
  show "(\<exists>r'. Deserialize L \<lparr>r_bytes = version # rest, r_calls = calls\<rparr> =
            (Inl (UnsupportedVersion version), r')) \<longleftrightarrow> version \<noteq> c_version"
  proof (cases "version = c_version")
    case True
    have "Deserialize L \<lparr>r_bytes = version # rest, r_calls = calls\<rparr> \<noteq>
        (Inl (UnsupportedVersion version), r')" for r'
    proof
      assume "Deserialize L \<lparr>r_bytes = version # rest, r_calls = calls\<rparr> =
        (Inl (UnsupportedVersion version), r')"
      with run True
      have "Current_Deserialize L \<lparr>r_bytes = rest, r_calls = calls @ [CallBegin, CallRead 1]\<rparr> =
          (Inl (UnsupportedVersion version), r')"
        by simp
      from Current_Deserialize_errors [OF this] show False by simp
    qed
    with True show ?thesis by simp
  next
    case False
    with run show ?thesis by simp
  qed
next
  assume h: "flags_ok L \<and> valid_table L T \<and> version # rest = wire_table L T @ ys"
  then show "version = c_version"
    by (simp add: wire_table_def)
  have "r_bytes \<lparr>r_bytes = version # rest, r_calls = calls\<rparr> = wire_table L T @ ys"
    using h by simp
  from Deserialize_wire [OF _ _ this] h
  show "\<exists>r'. Deserialize L \<lparr>r_bytes = version # rest, r_calls = calls\<rparr> =
         (Inr \<lparr>m_setting = m_setting T,
               m_perfData = \<lparr>saved = 0, loaded = length (m_records T)\<rparr>,
               m_records = m_records T\<rparr>, r')"
    by simp
qed

theorem only_current_version_dispatched_witness:
  "Deserialize example_layout \<lparr>r_bytes = [1, 7, 9, 0], r_calls = []\<rparr> =
     (Inl (UnsupportedVersion 1), \<lparr>r_bytes = [7, 9, 0], r_calls = [CallBegin, CallRead 1]\<rparr>) \<and>
   Deserialize example_layout \<lparr>r_bytes = [3, 7, 9, 0], r_calls = []\<rparr> =
     Current_Deserialize example_layout
       \<lparr>r_bytes = [7, 9, 0], r_calls = [CallBegin, CallRead 1]\<rparr> \<and>
   \<not> (\<exists>r'. Deserialize example_layout \<lparr>r_bytes = [3, 7, 9, 0], r_calls = []\<rparr> =
            (Inl (UnsupportedVersion 3), r')) \<and>
   (\<exists>r'. Deserialize example_layout \<lparr>r_bytes = example_bytes, r_calls = []\<rparr> =
      (Inr \<lparr>m_setting = [7, 9], m_perfData = \<lparr>saved = 0, loaded = 2\<rparr>,
            m_records = [([1, 2], [3]), ([], [])]\<rparr>, r'))"
proof -
  have c1: "Deserialize example_layout \<lparr>r_bytes = [1, 7, 9, 0], r_calls = []\<rparr> =
     (Inl (UnsupportedVersion 1), \<lparr>r_bytes = [7, 9, 0], r_calls = [CallBegin, CallRead 1]\<rparr>)"
    using only_current_version_dispatched [of example_layout 1 "[7, 9, 0]" "[]" example_table "[]",
        THEN conjunct1]
    by (simp add: c_version_def)
  have c2: "Deserialize example_layout \<lparr>r_bytes = [3, 7, 9, 0], r_calls = []\<rparr> =
     Current_Deserialize example_layout
       \<lparr>r_bytes = [7, 9, 0], r_calls = [CallBegin, CallRead 1]\<rparr>"
    using only_current_version_dispatched [of example_layout 3 "[7, 9, 0]" "[]" example_table "[]",
        THEN conjunct1]
    by (simp add: c_version_def)
  have c3: "\<not> (\<exists>r'. Deserialize example_layout \<lparr>r_bytes = [3, 7, 9, 0], r_calls = []\<rparr> =
            (Inl (UnsupportedVersion 3), r'))"
    using only_current_version_dispatched [of example_layout 3 "[7, 9, 0]" "[]" example_table "[]",
        THEN conjunct2, THEN conjunct1]
    by (simp add: c_version_def)
  have bytes: "3 # tl example_bytes = example_bytes"
    by (simp add: example_bytes_def)
  have prem: "flags_ok example_layout \<and> valid_table example_layout example_table \<and>
      3 # tl example_bytes = wire_table example_layout example_table @ []"
    unfolding bytes by (intro conjI example_valid) (simp add: example_wire)
  note whole = only_current_version_dispatched [of example_layout 3 "tl example_bytes" "[]"
      example_table "[]", THEN conjunct2, THEN conjunct2, rule_format, OF prem, THEN conjunct2]
  have c4: "\<exists>r'. Deserialize example_layout \<lparr>r_bytes = example_bytes, r_calls = []\<rparr> =
      (Inr \<lparr>m_setting = [7, 9], m_perfData = \<lparr>saved = 0, loaded = 2\<rparr>,
            m_records = [([1, 2], [3]), ([], [])]\<rparr>, r')"
    using whole unfolding bytes
    by (simp add: example_table_def numeral_2_eq_2)
  show ?thesis
    by (intro conjI c1 c2 c3 c4)
qed

text \<open>
  C2. A stream that carries the current tag, a settings blob and a sequence of records in
  which two records share a key makes \<open>Deserialize\<close> fail with
  \<open>ReplayInvariantViolation\<close>, whatever follows the records: the second \<open>Add\<close> of
  the key calls \<open>RegisterAction\<close>, which throws. The result is an error and carries
  no table.
\<close>

theorem duplicate_key_rejected:
  assumes "bool_of_byte L 1" and "length setting = sizeof_Setting L"
    and "list_all (fits L) recs" and "\<not> distinct (map fst recs)"
  shows "\<exists>r'. Deserialize L (new_reader (c_version # setting @ wire_records L recs @ rest)) =
           (Inl ReplayInvariantViolation, r')"
proof -
  obtain x xs where recs: "recs = x # xs"
    using assms(4) by (cases recs) auto
  let ?r1 = "\<lparr>r_bytes = setting @ wire_records L recs @ rest, r_calls = [CallBegin, CallRead 1]\<rparr>"
  let ?r2 = "\<lparr>r_bytes = wire_records L recs @ rest,
      r_calls = [CallBegin, CallRead 1, CallRead (sizeof_Setting L)]\<rparr>"
  let ?r3 = "\<lparr>r_bytes = wire_record L x @ wire_records L xs @ rest,
      r_calls = [CallBegin, CallRead 1, CallRead (sizeof_Setting L), CallRead 1]\<rparr>"
  have version: "Read 1 (reader_Begin (new_reader (c_version # setting @ wire_records L recs @ rest))) =
      (Inr [c_version], ?r1)"
    by (simp add: Read_def reader_Begin_def new_reader_def)
  have setting: "Read (sizeof_Setting L) ?r1 = (Inr setting, ?r2)"
    using Read_prefix [of ?r1 setting "wire_records L recs @ rest"] assms(2) by simp
  have flag: "Deserialize_bool L ?r2 = (Inr True, ?r3)"
    using Deserialize_bool_byte [of ?r2 1 "wire_record L x @ wire_records L xs @ rest" L] assms(1)
    by (simp add: recs wire_records_Cons)
  have "\<exists>ht' r'. replay L True (MakeUnique setting) ?r3 = (Some ReplayInvariantViolation, ht', r')"
    using assms(1,3,4) by (intro replay_duplicate) (simp_all add: recs MakeUnique_def)
  then obtain ht' r' where
    "replay L True (MakeUnique setting) ?r3 = (Some ReplayInvariantViolation, ht', r')"
    by blast
  with version setting flag
  have "Deserialize L (new_reader (c_version # setting @ wire_records L recs @ rest)) =
           (Inl ReplayInvariantViolation, r')"
    by (simp add: Deserialize_def overwrite_def Current_Deserialize_def)
  then show ?thesis ..
qed

theorem duplicate_key_rejected_witness:
  "\<not> distinct (map fst [([5 :: byte], [1 :: byte]), ([5], [2])]) \<and>
   (\<exists>r'. Deserialize example_layout
           (new_reader [3, 7, 9, 1, 1, 0, 0, 0, 5, 1, 0, 0, 0, 1, 1, 1, 0, 0, 0, 5, 1, 0, 0, 0, 2, 0]) =
         (Inl ReplayInvariantViolation, r'))"
proof -
  have h: "bool_of_byte example_layout 1"
    "length [7, 9 :: byte] = sizeof_Setting example_layout"
    "list_all (fits example_layout) [([5], [1]), ([5], [2])]"
    "\<not> distinct (map fst [([5 :: byte], [1 :: byte]), ([5], [2])])"
    by (simp_all add: example_layout_def fits_def)
  have w: "c_version # [7, 9] @ wire_records example_layout [([5], [1]), ([5], [2])] @ [0] =
      [3, 7, 9, 1, 1, 0, 0, 0, 5, 1, 0, 0, 0, 1, 1, 1, 0, 0, 0, 5, 1, 0, 0, 0, 2, 0]"
    by (simp add: wire_records_def wire_record_def example_layout_def c_version_def
        le_encode_numeral)
  show ?thesis
    using duplicate_key_rejected [OF h, of "[0]"] h(4) unfolding w by simp
qed

text \<open>
  C7. The claim places the increment of the counter before the read of the next presence
  flag. The loop of the header reads the flag first
  (\<^verbatim>\<open>helper.Deserialize(hasMoreData)\<close>, line 177) and increments after it
  (line 179). On a stream that ends right after its first record the read of the flag
  faults with one record in the table and the counter still at zero.
\<close>

theorem counter_at_flag_fault_counterexample:
  "replay example_layout True (MakeUnique [7, 9]) (new_reader [1, 0, 0, 0, 5, 0, 0, 0, 0]) =
     (Some StreamFault,
      \<lparr>m_setting = [7, 9], m_perfData = \<lparr>saved = 0, loaded = 0\<rparr>, m_records = [([5], [])]\<rparr>,
      \<lparr>r_bytes = [],
       r_calls = [CallRead 4, CallRead 1, CallRead 4, CallRead 0, CallRead 1]\<rparr>) \<and>
   loaded (m_perfData (fst (snd (replay example_layout True (MakeUnique [7, 9])
       (new_reader [1, 0, 0, 0, 5, 0, 0, 0, 0]))))) \<noteq>
   length (m_records (fst (snd (replay example_layout True (MakeUnique [7, 9])
       (new_reader [1, 0, 0, 0, 5, 0, 0, 0, 0])))))"
proof -
  have w: "wire_record example_layout ([5], []) @ wire_records example_layout [] =
      [1, 0, 0, 0, 5, 0, 0, 0, 0]"
    by (simp add: wire_records_def wire_record_def example_layout_def le_encode_numeral)
  have "flags_ok example_layout" and "list_all (fits example_layout) [([5], [])]"
    and "distinct (map fst (m_records (MakeUnique [7, 9]) @ [([5 :: byte], [] :: byte list)]))"
    and "r_bytes (new_reader [1, 0, 0, 0, 5, 0, 0, 0, 0]) =
      wire_record example_layout ([5], []) @ wire_records example_layout []"
    unfolding w by (simp_all add: flags_ok_def example_layout_def fits_def MakeUnique_def
        new_reader_def)
  from replay_truncated [OF this]
  have "replay example_layout True (MakeUnique [7, 9]) (new_reader [1, 0, 0, 0, 5, 0, 0, 0, 0]) =
     (Some StreamFault,
      \<lparr>m_setting = [7, 9], m_perfData = \<lparr>saved = 0, loaded = 0\<rparr>, m_records = [([5], [])]\<rparr>,
      \<lparr>r_bytes = [],
       r_calls = [CallRead 4, CallRead 1, CallRead 4, CallRead 0, CallRead 1]\<rparr>)"
    by (simp add: MakeUnique_def new_reader_def replay_reads_def record_reads_def
        example_layout_def)
  then show ?thesis
    by simp
qed

text \<open>
  C7, as amended. An iteration of the replay loop decodes the record, adds it, reads the
  next presence flag and only then increments the counter. When the stream ends after
  one or more complete records with new keys, the read of the flag after the last of
  them faults; every one of these records is in the table by then, and the counter has
  moved by one less than their number: the record added last is not counted.
\<close>

theorem counter_lags_at_flag_fault:
  assumes "flags_ok L" and "list_all (fits L) (x # xs)"
    and "distinct (map fst (m_records ht @ x # xs))"
    and "r_bytes r = wire_record L x @ wire_records L xs"
  shows "\<exists>ht' r'. replay L True ht r = (Some StreamFault, ht', r') \<and>
     m_records ht' = m_records ht @ x # xs \<and>
     Suc (loaded (m_perfData ht')) = loaded (m_perfData ht) + length (x # xs) \<and>
     r_bytes r' = [] \<and> r_calls r' = r_calls r @ replay_reads L (x # xs)"
  using replay_truncated [OF assms] by simp

theorem counter_lags_at_flag_fault_witness:
  "\<exists>ht' r'.
     replay example_layout True (MakeUnique [7, 9])
       (new_reader [1, 0, 0, 0, 5, 0, 0, 0, 0, 1, 1, 0, 0, 0, 6, 1, 0, 0, 0, 8]) =
       (Some StreamFault, ht', r') \<and>
     m_records ht' = [([5], []), ([6], [8])] \<and> loaded (m_perfData ht') = 1 \<and>
     r_bytes r' = [] \<and>
     r_calls r' = [CallRead 4, CallRead 1, CallRead 4, CallRead 0, CallRead 1,
                   CallRead 4, CallRead 1, CallRead 4, CallRead 1, CallRead 1]"
proof -
  have w: "wire_record example_layout ([5], []) @ wire_records example_layout [([6], [8])] =
      [1, 0, 0, 0, 5, 0, 0, 0, 0, 1, 1, 0, 0, 0, 6, 1, 0, 0, 0, 8]"
    by (simp add: wire_records_def wire_record_def example_layout_def le_encode_numeral)
  have "flags_ok example_layout" and "list_all (fits example_layout) [([5], []), ([6], [8])]"
    and "distinct (map fst (m_records (MakeUnique [7, 9]) @
           [([5 :: byte], [] :: byte list), ([6], [8])]))"
    and "r_bytes (new_reader [1, 0, 0, 0, 5, 0, 0, 0, 0, 1, 1, 0, 0, 0, 6, 1, 0, 0, 0, 8]) =
      wire_record example_layout ([5], []) @ wire_records example_layout [([6], [8])]"
    unfolding w by (simp_all add: flags_ok_def example_layout_def fits_def MakeUnique_def
        new_reader_def)
  from counter_lags_at_flag_fault [OF this] show ?thesis
    by (simp add: MakeUnique_def new_reader_def replay_reads_def record_reads_def
        example_layout_def)
qed

text \<open>
  C1. Let a valid table be serialized with success, in a build in which the flag bytes 1
  and 0 read back as \<^verbatim>\<open>true\<close> and \<^verbatim>\<open>false\<close>. Then \<open>Deserialize\<close> of the
  bytes that this run appended to the stream succeeds, and the table it returns has the
  settings of the original and the same set of key and value pairs, with unique keys.
  The records of the original are listed in the order of its iterator, which is
  arbitrary, so the statement holds for every traversal order.
\<close>

theorem round_trip:
  assumes "flags_ok L" and "valid_table L T" and "Serialize L T w = (None, T', w')"
  shows "\<exists>T'' r'.
     Deserialize L (new_reader (drop (length (w_bytes w)) (w_bytes w'))) = (Inr T'', r') \<and>
     m_setting T'' = m_setting T \<and> set (m_records T'') = set (m_records T) \<and>
     distinct (map fst (m_records T''))"
proof -
  have "drop (length (w_bytes w)) (w_bytes w') = wire_table L T"
    using Serialize_success(2) [OF assms(2,3)] by simp
  moreover have "r_bytes (new_reader (wire_table L T)) = wire_table L T @ []"
    by (simp add: new_reader_def)
  note Deserialize_wire [OF assms(1,2) this]
  moreover have "distinct (map fst (m_records T))"
    using assms(2) by (simp add: valid_table_def)
  ultimately show ?thesis
    by simp
qed


theorem round_trip_witness:
  "Serialize example_layout example_table example_writer =
     (None,
      \<lparr>m_setting = [7, 9], m_perfData = \<lparr>saved = 2, loaded = 0\<rparr>,
       m_records = [([1, 2], [3]), ([], [])]\<rparr>,
      \<lparr>w_bytes = [3, 7, 9, 1, 2, 0, 0, 0, 1, 2, 1, 0, 0, 0, 3, 1, 0, 0, 0, 0, 0, 0, 0, 0, 0],
       w_room = 39,
       w_calls = [CallBegin, CallWrite 1, CallWrite 2, CallWrite 1, CallWrite 4, CallWrite 2,
                  CallWrite 4, CallWrite 1, CallWrite 1, CallWrite 4, CallWrite 0, CallWrite 4,
                  CallWrite 0, CallWrite 1, CallEnd]\<rparr>) \<and>
   (\<exists>T'' r'.
      Deserialize example_layout
        (new_reader [3, 7, 9, 1, 2, 0, 0, 0, 1, 2, 1, 0, 0, 0, 3, 1, 0, 0, 0, 0, 0, 0, 0, 0, 0]) =
        (Inr T'', r') \<and>
      m_setting T'' = [7, 9] \<and> set (m_records T'') = {([1, 2], [3]), ([], [])} \<and>
      distinct (map fst (m_records T'')))"
  using round_trip [OF example_valid example_run] example_run
  by (simp add: example_table_def example_writer_def)

text \<open>
  C5. After a successful \<open>Serialize\<close> of a valid table the counter
  \<open>RecordsCountSavedFromSerializer\<close> of that table equals the number of its records,
  whatever it was before, since the call resets it first and increments it once for each
  record. After \<open>Deserialize\<close> of the bytes of that run the counter
  \<open>RecordsCountLoadedFromSerializer\<close> of the new table equals the same number.
\<close>

theorem counter_accuracy:
  assumes "flags_ok L" and "valid_table L T" and "Serialize L T w = (None, T', w')"
  shows "saved (m_perfData T') = length (m_records T) \<and>
    (\<exists>T'' r'.
       Deserialize L (new_reader (drop (length (w_bytes w)) (w_bytes w'))) = (Inr T'', r') \<and>
       loaded (m_perfData T'') = length (m_records T))"
proof -
  have "drop (length (w_bytes w)) (w_bytes w') = wire_table L T"
    using Serialize_success(2) [OF assms(2,3)] by simp
  moreover have "r_bytes (new_reader (wire_table L T)) = wire_table L T @ []"
    by (simp add: new_reader_def)
  note Deserialize_wire [OF assms(1,2) this]
  moreover have "saved (m_perfData T') = length (m_records T)"
    using Serialize_success(1) [OF assms(2,3)] by simp
  ultimately show ?thesis
    by simp
qed

theorem counter_accuracy_witness:
  "saved (m_perfData example_table) = 5 \<and> length (m_records example_table) = 2 \<and>
   saved (m_perfData (fst (snd (Serialize example_layout example_table example_writer)))) = 2 \<and>
   (\<exists>T'' r'.
      Deserialize example_layout
        (new_reader [3, 7, 9, 1, 2, 0, 0, 0, 1, 2, 1, 0, 0, 0, 3, 1, 0, 0, 0, 0, 0, 0, 0, 0, 0]) =
        (Inr T'', r') \<and>
      loaded (m_perfData T'') = 2)"
  using counter_accuracy [OF example_valid example_run] example_run
  by (simp add: example_table_def example_writer_def numeral_2_eq_2)

text \<open>
  C8. The driver's \<open>Deserialize\<close> calls \<open>Begin\<close> and reads the one-byte tag, and on
  the current tag it hands the reader over to \<open>Current_Deserialize\<close>. Whatever the
  stream holds, the calls of a run of \<open>Deserialize\<close> are \<open>Begin\<close>, the read of the
  tag, further reads, and, exactly when the run returns a table, one final \<open>End\<close>.
  That \<open>End\<close> is the reader's: a run of \<open>Current_Deserialize\<close> on its own makes reads
  only, followed by one \<open>End\<close> exactly when it succeeds, and never a \<open>Begin\<close>. The
  driver's \<open>Serialize\<close> is \<open>Current_Serialize\<close>, whose calls are \<open>Begin\<close>, writes,
  and one final \<open>End\<close> exactly when no write has failed. The successful runs exist:
  on the bytes of a valid table \<open>Deserialize\<close> and \<open>Current_Deserialize\<close> return a
  table and their last call is \<open>End\<close>, and \<open>Serialize\<close> of a valid table into a
  writer with room for its bytes succeeds with \<open>Begin\<close> as its first call and \<open>End\<close>
  as its last.
\<close>

theorem stream_bracketing:
  "(r_bytes r = c_version # rest \<longrightarrow>
      Deserialize L r =
        Current_Deserialize L (r\<lparr>r_bytes := rest, r_calls := r_calls r @ [CallBegin, CallRead 1]\<rparr>)) \<and>
   (Deserialize L r = (res, r') \<longrightarrow>
      (\<exists>ns. r_calls r' = r_calls r @ CallBegin # CallRead 1 # map CallRead ns @
                  (if isl res then [] else [CallEnd]))) \<and>
   (Current_Deserialize L rc = (resc, rc') \<longrightarrow>
      (\<exists>ns. r_calls rc' = r_calls rc @ map CallRead ns @
                  (if isl resc then [] else [CallEnd]))) \<and>
   Serialize L T w = Current_Serialize L T w \<and>
   (Current_Serialize L T w = (e, T', w') \<longrightarrow>
      (\<exists>ns. w_calls w' = w_calls w @ CallBegin # map CallWrite ns @
                  (if e = None then [CallEnd] else []))) \<and>
   (flags_ok L \<and> valid_table L Tv \<and> r_bytes rv = wire_table L Tv @ ys \<longrightarrow>
      (\<exists>ht. Deserialize L rv =
         (Inr ht,
          rv\<lparr>r_bytes := ys,
             r_calls := r_calls rv @ CallBegin # CallRead 1 # CallRead (sizeof_Setting L) #
                          CallRead 1 # replay_reads L (m_records Tv) @ [CallEnd]\<rparr>))) \<and>
   (flags_ok L \<and> valid_table L Tv \<and>
    r_bytes rv = m_setting Tv @ wire_records L (m_records Tv) @ 0 # ys \<longrightarrow>
      (\<exists>ht. Current_Deserialize L rv =
         (Inr ht,
          rv\<lparr>r_bytes := ys,
             r_calls := r_calls rv @ CallRead (sizeof_Setting L) # CallRead 1 #
                          replay_reads L (m_records Tv) @ [CallEnd]\<rparr>))) \<and>
   (valid_table L Tv \<and> length (wire_table L Tv) \<le> w_room wv \<longrightarrow>
      (\<exists>Tw. Serialize L Tv wv =
         (None, Tw,
          wv\<lparr>w_bytes := w_bytes wv @ wire_table L Tv,
             w_room := w_room wv - length (wire_table L Tv),
             w_calls := w_calls wv @ CallBegin # CallWrite 1 # CallWrite (sizeof_Setting L) #
                          table_writes L (m_records Tv) @ [CallWrite 1, CallEnd]\<rparr>)))"
proof (intro conjI impI)
  assume "r_bytes r = c_version # rest"
  then show "Deserialize L r =
      Current_Deserialize L (r\<lparr>r_bytes := rest, r_calls := r_calls r @ [CallBegin, CallRead 1]\<rparr>)"
    by (simp add: Deserialize_def Read_def reader_Begin_def overwrite_def)
next
  assume "Deserialize L r = (res, r')"
  then show "\<exists>ns. r_calls r' = r_calls r @ CallBegin # CallRead 1 # map CallRead ns @
                  (if isl res then [] else [CallEnd])"
    by (rule Deserialize_calls)
next
  assume "Current_Deserialize L rc = (resc, rc')"
  then show "\<exists>ns. r_calls rc' = r_calls rc @ map CallRead ns @
                  (if isl resc then [] else [CallEnd])"
    by (rule Current_Deserialize_calls)
next
  show "Serialize L T w = Current_Serialize L T w"
    by (simp add: Serialize_def)
next
  assume "Current_Serialize L T w = (e, T', w')"
  then show "\<exists>ns. w_calls w' = w_calls w @ CallBegin # map CallWrite ns @
                  (if e = None then [CallEnd] else [])"
    by (rule Current_Serialize_calls)
next
  assume h: "flags_ok L \<and> valid_table L Tv \<and> r_bytes rv = wire_table L Tv @ ys"
  then have "flags_ok L" "valid_table L Tv" "r_bytes rv = wire_table L Tv @ ys"
    by simp_all
  from Deserialize_wire [OF this]
  show "\<exists>ht. Deserialize L rv =
         (Inr ht,
          rv\<lparr>r_bytes := ys,
             r_calls := r_calls rv @ CallBegin # CallRead 1 # CallRead (sizeof_Setting L) #
                          CallRead 1 # replay_reads L (m_records Tv) @ [CallEnd]\<rparr>)"
    by blast
next
  assume h: "flags_ok L \<and> valid_table L Tv \<and>
    r_bytes rv = m_setting Tv @ wire_records L (m_records Tv) @ 0 # ys"
  then have "flags_ok L" "valid_table L Tv"
    "r_bytes rv = m_setting Tv @ wire_records L (m_records Tv) @ 0 # ys"
    by simp_all
  from Current_Deserialize_wire [OF this]
  show "\<exists>ht. Current_Deserialize L rv =
         (Inr ht,
          rv\<lparr>r_bytes := ys,
             r_calls := r_calls rv @ CallRead (sizeof_Setting L) # CallRead 1 #
                          replay_reads L (m_records Tv) @ [CallEnd]\<rparr>)"
    by blast
next
  assume h: "valid_table L Tv \<and> length (wire_table L Tv) \<le> w_room wv"
  then have "valid_table L Tv" "length (wire_table L Tv) \<le> w_room wv"
    by simp_all
  from Current_Serialize_ok [OF this]
  show "\<exists>Tw. Serialize L Tv wv =
         (None, Tw,
          wv\<lparr>w_bytes := w_bytes wv @ wire_table L Tv,
             w_room := w_room wv - length (wire_table L Tv),
             w_calls := w_calls wv @ CallBegin # CallWrite 1 # CallWrite (sizeof_Setting L) #
                          table_writes L (m_records Tv) @ [CallWrite 1, CallEnd]\<rparr>)"
    unfolding Serialize_def by blast
qed


theorem stream_bracketing_witness:
  "Deserialize example_layout (new_reader example_bytes) =
     Current_Deserialize example_layout
       \<lparr>r_bytes = tl example_bytes, r_calls = [CallBegin, CallRead 1]\<rparr> \<and>
   (\<exists>ht. Deserialize example_layout (new_reader example_bytes) =
      (Inr ht,
       \<lparr>r_bytes = [],
        r_calls = [CallBegin, CallRead 1, CallRead 2, CallRead 1, CallRead 4, CallRead 2,
                   CallRead 4, CallRead 1, CallRead 1, CallRead 4, CallRead 0, CallRead 4,
                   CallRead 0, CallRead 1, CallEnd]\<rparr>)) \<and>
   (\<exists>ht. Current_Deserialize example_layout
           \<lparr>r_bytes = tl example_bytes, r_calls = [CallBegin, CallRead 1]\<rparr> =
      (Inr ht,
       \<lparr>r_bytes = [],
        r_calls = [CallBegin, CallRead 1, CallRead 2, CallRead 1, CallRead 4, CallRead 2,
                   CallRead 4, CallRead 1, CallRead 1, CallRead 4, CallRead 0, CallRead 4,
                   CallRead 0, CallRead 1, CallEnd]\<rparr>)) \<and>
   Serialize example_layout example_table example_writer =
     Current_Serialize example_layout example_table example_writer \<and>
   (\<exists>Tw. Current_Serialize example_layout example_table example_writer =
      (None, Tw,
       \<lparr>w_bytes = example_bytes, w_room = 39,
        w_calls = [CallBegin, CallWrite 1, CallWrite 2, CallWrite 1, CallWrite 4, CallWrite 2,
                   CallWrite 4, CallWrite 1, CallWrite 1, CallWrite 4, CallWrite 0, CallWrite 4,
                   CallWrite 0, CallWrite 1, CallEnd]\<rparr>)) \<and>
   Deserialize example_layout (new_reader [3, 7]) =
     (Inl StreamFault, \<lparr>r_bytes = [7], r_calls = [CallBegin, CallRead 1, CallRead 2]\<rparr>) \<and>
   (\<exists>ns. r_calls (snd (Deserialize example_layout (new_reader [3, 7]))) =
      CallBegin # CallRead 1 # map CallRead ns) \<and>
   (\<exists>ns. w_calls (snd (snd (Current_Serialize example_layout example_table
                                (example_writer\<lparr>w_room := 3\<rparr>)))) =
      CallBegin # map CallWrite ns)"
proof -
  let ?rd = "new_reader example_bytes"
  let ?rc = "\<lparr>r_bytes = tl example_bytes, r_calls = [CallBegin, CallRead 1]\<rparr>"
  note b = stream_bracketing [where L = example_layout and Tv = example_table and ys = "[]"]
  have reads: "replay_reads example_layout (m_records example_table) =
      [CallRead 4, CallRead 2, CallRead 4, CallRead 1, CallRead 1,
       CallRead 4, CallRead 0, CallRead 4, CallRead 0, CallRead 1]"
    by (simp add: replay_reads_def record_reads_def example_layout_def example_table_def)
  have writes: "table_writes example_layout (m_records example_table) =
      [CallWrite 1, CallWrite 4, CallWrite 2, CallWrite 4, CallWrite 1,
       CallWrite 1, CallWrite 4, CallWrite 0, CallWrite 4, CallWrite 0]"
    by (simp add: table_writes_def record_writes_def example_layout_def example_table_def)
  have size: "sizeof_Setting example_layout = 2"
    by (simp add: example_layout_def)
  have c1: "Deserialize example_layout ?rd = Current_Deserialize example_layout ?rc"
  proof -
    have "r_bytes ?rd = c_version # tl example_bytes"
      by (simp add: new_reader_def example_bytes_def c_version_def)
    from b [where r = ?rd and rest = "tl example_bytes", THEN conjunct1, rule_format, OF this]
    show ?thesis by (simp add: new_reader_def)
  qed
  have c2: "\<exists>ht. Deserialize example_layout ?rd =
      (Inr ht,
       \<lparr>r_bytes = [],
        r_calls = [CallBegin, CallRead 1, CallRead 2, CallRead 1, CallRead 4, CallRead 2,
                   CallRead 4, CallRead 1, CallRead 1, CallRead 4, CallRead 0, CallRead 4,
                   CallRead 0, CallRead 1, CallEnd]\<rparr>)"
  proof -
    have "flags_ok example_layout \<and> valid_table example_layout example_table \<and>
        r_bytes ?rd = wire_table example_layout example_table @ []"
      by (intro conjI example_valid) (simp add: new_reader_def example_wire)
    from b [where rv = ?rd, THEN conjunct2, THEN conjunct2, THEN conjunct2, THEN conjunct2,
        THEN conjunct2, THEN conjunct1, rule_format, OF this]
    show ?thesis by (simp add: new_reader_def reads size)
  qed
  have c3: "\<exists>ht. Current_Deserialize example_layout ?rc =
      (Inr ht,
       \<lparr>r_bytes = [],
        r_calls = [CallBegin, CallRead 1, CallRead 2, CallRead 1, CallRead 4, CallRead 2,
                   CallRead 4, CallRead 1, CallRead 1, CallRead 4, CallRead 0, CallRead 4,
                   CallRead 0, CallRead 1, CallEnd]\<rparr>)"
  proof -
    have "tl example_bytes = m_setting example_table @
        wire_records example_layout (m_records example_table) @ [0]"
      by (simp add: example_wire [symmetric] wire_table_def)
    then have "flags_ok example_layout \<and> valid_table example_layout example_table \<and>
        r_bytes ?rc = m_setting example_table @
          wire_records example_layout (m_records example_table) @ 0 # []"
      by (intro conjI example_valid) auto
    from b [where rv = ?rc, THEN conjunct2, THEN conjunct2, THEN conjunct2, THEN conjunct2,
        THEN conjunct2, THEN conjunct2, THEN conjunct1, rule_format, OF this]
    show ?thesis by (simp add: reads size)
  qed
  have c4: "Serialize example_layout example_table example_writer =
      Current_Serialize example_layout example_table example_writer"
    using b [where T = example_table and w = example_writer] by blast
  have c5: "\<exists>Tw. Current_Serialize example_layout example_table example_writer =
      (None, Tw,
       \<lparr>w_bytes = example_bytes, w_room = 39,
        w_calls = [CallBegin, CallWrite 1, CallWrite 2, CallWrite 1, CallWrite 4, CallWrite 2,
                   CallWrite 4, CallWrite 1, CallWrite 1, CallWrite 4, CallWrite 0, CallWrite 4,
                   CallWrite 0, CallWrite 1, CallEnd]\<rparr>)"
  proof -
    have "valid_table example_layout example_table \<and>
        length (wire_table example_layout example_table) \<le> w_room example_writer"
      by (intro conjI example_valid)
        (simp add: example_wire example_bytes_def example_writer_def)
    from b [where wv = example_writer, THEN conjunct2, THEN conjunct2, THEN conjunct2,
        THEN conjunct2, THEN conjunct2, THEN conjunct2, THEN conjunct2, rule_format, OF this]
    show ?thesis
      unfolding c4 example_wire
      by (simp add: example_writer_def writes size example_bytes_def)
  qed
  have c6: "Deserialize example_layout (new_reader [3, 7]) =
     (Inl StreamFault, \<lparr>r_bytes = [7], r_calls = [CallBegin, CallRead 1, CallRead 2]\<rparr>)"
    by (simp add: Deserialize_def Current_Deserialize_def Read_def reader_Begin_def
        overwrite_def new_reader_def c_version_def example_layout_def)
  have c7: "\<exists>ns. r_calls (snd (Deserialize example_layout (new_reader [3, 7]))) =
      CallBegin # CallRead 1 # map CallRead ns"
    using b [where r = "new_reader [3, 7]" and res = "Inl StreamFault"
        and r' = "\<lparr>r_bytes = [7], r_calls = [CallBegin, CallRead 1, CallRead 2]\<rparr>",
        THEN conjunct2, THEN conjunct1, rule_format, OF c6]
    unfolding c6 by (simp add: new_reader_def)
  have c8: "\<exists>ns. w_calls (snd (snd (Current_Serialize example_layout example_table
                                (example_writer\<lparr>w_room := 3\<rparr>)))) =
      CallBegin # map CallWrite ns"
  proof -
    have run: "Current_Serialize example_layout example_table (example_writer\<lparr>w_room := 3\<rparr>) =
       (Some StreamFault,
        \<lparr>m_setting = [7, 9], m_perfData = \<lparr>saved = 0, loaded = 0\<rparr>,
         m_records = [([1, 2], [3]), ([], [])]\<rparr>,
        \<lparr>w_bytes = [3, 7, 9], w_room = 0,
         w_calls = [CallBegin, CallWrite 1, CallWrite 2, CallWrite 1]\<rparr>)"
      by (simp add: Current_Serialize_def example_layout_def example_table_def
          example_writer_def Write_def writer_Begin_def c_version_def)
    from b [where T = example_table and w = "example_writer\<lparr>w_room := 3\<rparr>",
        THEN conjunct2, THEN conjunct2, THEN conjunct2, THEN conjunct2, THEN conjunct1,
        rule_format, OF run]
    show ?thesis unfolding run by (simp add: example_writer_def)
  qed
  show ?thesis
    by (intro conjI c1 c2 c3 c4 c5 c6 c7 c8)
qed

text \<open>
  C9. With the four-byte lengths of the specification, and for a key and a value whose
  lengths are below \<open>2 ^ 32\<close>, zero included: a successful run of the loop body of
  \<open>Serialize\<close> on one record writes the flag, the key length, the key bytes, the value
  length and the value bytes, in this order and in five writes of these sizes; each
  length takes exactly four bytes and decodes to itself; and an iteration of the replay
  loop on these bytes reads four bytes, then as many bytes as the length just read says,
  twice, and adds the same key and value to the table.
\<close>

theorem record_codec:
  assumes "spec_widths L" and "flags_ok L"
    and "length key < 2 ^ 32" and "length val < 2 ^ 32"
  shows "(Serialize_records L [(key, val)] perf w = (None, perf', w') \<longrightarrow>
      w_bytes w' = w_bytes w @ [1] @ le_encode 4 (length key) @ key @
                     le_encode 4 (length val) @ val \<and>
      w_calls w' = w_calls w @ [CallWrite 1, CallWrite 4, CallWrite (length key),
                                 CallWrite 4, CallWrite (length val)]) \<and>
    length (le_encode 4 (length key)) = 4 \<and> length (le_encode 4 (length val)) = 4 \<and>
    le_decode (le_encode 4 (length key)) = length key \<and>
    le_decode (le_encode 4 (length val)) = length val \<and>
    (key \<notin> set (map fst (m_records ht)) \<and>
     r_bytes r = le_encode 4 (length key) @ key @ le_encode 4 (length val) @ val @ 0 # rest \<longrightarrow>
      replay L True ht r =
        (None,
         ht\<lparr>m_records := m_records ht @ [(key, val)],
            m_perfData := (m_perfData ht)\<lparr>loaded := Suc (loaded (m_perfData ht))\<rparr>\<rparr>,
         r\<lparr>r_bytes := rest,
           r_calls := r_calls r @ [CallRead 4, CallRead (length key), CallRead 4,
                                    CallRead (length val), CallRead 1]\<rparr>))"
proof -
  have kw: "sizeof_KeySize L = 4" and vw: "sizeof_ValueSize L = 4"
    using assms(1) by (simp_all add: spec_widths_def)
  have small: "length key < 256 ^ 4" "length val < 256 ^ 4"
    using assms(3,4) by simp_all
  then have fit: "list_all (fits L) [(key, val)]"
    by (simp add: fits_def kw vw)
  have wire: "wire_record L (key, val) =
      le_encode 4 (length key) @ key @ le_encode 4 (length val) @ val"
    by (simp add: wire_record_def kw vw)
  have enc: "w_bytes w' = w_bytes w @ [1] @ le_encode 4 (length key) @ key @
                     le_encode 4 (length val) @ val \<and>
      w_calls w' = w_calls w @ [CallWrite 1, CallWrite 4, CallWrite (length key),
                                 CallWrite 4, CallWrite (length val)]"
    if run: "Serialize_records L [(key, val)] perf w = (None, perf', w')"
  proof -
    have "length (wire_records L [(key, val)]) \<le> w_room w"
      using fit run by (rule Serialize_records_None)
    from Serialize_records_ok [OF fit this, of perf] run show ?thesis
      by (auto simp: wire_records_def wire table_writes_def record_writes_def kw vw)
  qed
  have dec: "replay L True ht r =
        (None,
         ht\<lparr>m_records := m_records ht @ [(key, val)],
            m_perfData := (m_perfData ht)\<lparr>loaded := Suc (loaded (m_perfData ht))\<rparr>\<rparr>,
         r\<lparr>r_bytes := rest,
           r_calls := r_calls r @ [CallRead 4, CallRead (length key), CallRead 4,
                                    CallRead (length val), CallRead 1]\<rparr>)"
    if new: "key \<notin> set (map fst (m_records ht))"
      and bytes: "r_bytes r = le_encode 4 (length key) @ key @ le_encode 4 (length val) @ val @ 0 # rest"
  proof -
    have "fits L (key, val)"
      using fit by simp
    moreover have "r_bytes r = wire_record L (key, val) @ 0 # rest"
      using bytes by (simp add: wire)
    ultimately show ?thesis
      using replay_step [of L "(key, val)" r "0 # rest" ht] new assms(2)
      by (simp add: Add_def Deserialize_bool_byte flags_ok_def replay_done record_reads_def
          kw vw)
  qed
  show ?thesis
    using enc dec small by (simp add: le_decode_le_encode)
qed


theorem record_codec_witness:
  "spec_widths example_layout \<and>
   Serialize_records example_layout [([], [])] \<lparr>saved = 0, loaded = 0\<rparr> example_writer =
     (None, \<lparr>saved = 1, loaded = 0\<rparr>,
      \<lparr>w_bytes = [1, 0, 0, 0, 0, 0, 0, 0, 0], w_room = 55,
       w_calls = [CallWrite 1, CallWrite 4, CallWrite 0, CallWrite 4, CallWrite 0]\<rparr>) \<and>
   le_decode (le_encode 4 (length ([] :: byte list))) = 0 \<and>
   replay example_layout True (MakeUnique [7, 9]) (new_reader [0, 0, 0, 0, 0, 0, 0, 0, 0]) =
     (None,
      \<lparr>m_setting = [7, 9], m_perfData = \<lparr>saved = 0, loaded = 1\<rparr>, m_records = [([], [])]\<rparr>,
      \<lparr>r_bytes = [],
       r_calls = [CallRead 4, CallRead 0, CallRead 4, CallRead 0, CallRead 1]\<rparr>) \<and>
   replay example_layout True (MakeUnique [7, 9])
       (new_reader [2, 0, 0, 0, 1, 2, 1, 0, 0, 0, 3, 0]) =
     (None,
      \<lparr>m_setting = [7, 9], m_perfData = \<lparr>saved = 0, loaded = 1\<rparr>,
       m_records = [([1, 2], [3])]\<rparr>,
      \<lparr>r_bytes = [],
       r_calls = [CallRead 4, CallRead 2, CallRead 4, CallRead 1, CallRead 1]\<rparr>)"
proof -
  have h: "spec_widths example_layout" "flags_ok example_layout"
    by (simp_all add: spec_widths_def flags_ok_def example_layout_def)
  have run: "Serialize_records example_layout [([], [])] \<lparr>saved = 0, loaded = 0\<rparr> example_writer =
     (None, \<lparr>saved = 1, loaded = 0\<rparr>,
      \<lparr>w_bytes = [1, 0, 0, 0, 0, 0, 0, 0, 0], w_room = 55,
       w_calls = [CallWrite 1, CallWrite 4, CallWrite 0, CallWrite 4, CallWrite 0]\<rparr>)"
    by (simp add: example_layout_def example_writer_def Write_def blob_size_def
        le_encode_numeral)
  have small: "length ([] :: byte list) < 2 ^ 32" "length [1, 2 :: byte] < 2 ^ 32"
    "length [3 :: byte] < 2 ^ 32"
    by simp_all
  note empty = record_codec [OF h small(1) small(1), where perf = "\<lparr>saved = 0, loaded = 0\<rparr>"
      and w = example_writer and ht = "MakeUnique [7, 9]"
      and r = "new_reader [0, 0, 0, 0, 0, 0, 0, 0, 0]" and rest = "[]"]
  note other = record_codec [OF h small(2) small(3), where ht = "MakeUnique [7, 9]"
      and r = "new_reader [2, 0, 0, 0, 1, 2, 1, 0, 0, 0, 3, 0]" and rest = "[]"]
  show ?thesis
    using h(1) run empty other
    by (simp add: MakeUnique_def new_reader_def le_encode_numeral)
qed

end
